theory Spec2Isabelle
  imports Main "HOL-Library.Product_Lexorder" "HOL-Library.Stream"
begin

section \<open>Data model\<close>

text \<open>
  A cell is a pair \<open>(row, column)\<close> of Python integers.  A \<open>Sentence\<close> holds a set of
  cells and an integer count (\<open>minesweeper.py\<close>, lines 87-142).  Python's \<open>__eq__\<close> on
  sentences compares cells and count, which is the equality of the record.
\<close>

type_synonym cell = "int \<times> int"

record sentence =
  cells :: "cell set"
  count :: int

datatype error = ValueError

section \<open>Sentence\<close>

text \<open>
  \<open>known_mines\<close> and \<open>known_safes\<close> only read the sentence: they return a set and no
  updated sentence.  \<open>len(self.cells)\<close> is the cardinality of the set.
\<close>

definition known_mines :: "sentence \<Rightarrow> cell set" where
  "known_mines s = (if count s = int (card (cells s)) then cells s else {})"

definition known_safes :: "sentence \<Rightarrow> cell set" where
  "known_safes s = (if count s = 0 then cells s else {})"

text \<open>
  \<open>Sentence.mark_mine\<close> and \<open>Sentence.mark_safe\<close> (the engine has methods of the same
  names, so these two carry the class name as a prefix).  \<open>set.remove\<close> is only
  called on a member.
\<close>

definition sentence_mark_mine :: "cell \<Rightarrow> sentence \<Rightarrow> sentence" where
  "sentence_mark_mine c s =
     (if c \<in> cells s then s\<lparr>cells := cells s - {c}, count := count s - 1\<rparr> else s)"

definition sentence_mark_safe :: "cell \<Rightarrow> sentence \<Rightarrow> sentence" where
  "sentence_mark_safe c s =
     (if c \<in> cells s then s\<lparr>cells := cells s - {c}\<rparr> else s)"

section \<open>MinesweeperAI\<close>

text \<open>
  The engine (\<open>minesweeper.py\<close>, lines 147-297).  \<open>self.knowledge\<close> is a Python list
  of references to mutable \<open>Sentence\<close> objects, and \<open>add_knowledge\<close> iterates over a
  shallow copy of that list while it removes entries from the list and mutates the
  objects.  The model therefore has an explicit store: \<open>heap\<close> maps an address to the
  sentence stored there and \<open>knowledge\<close> is the list of addresses.  \<open>kb\<close> reads the
  list of sentence values.
\<close>

record ai =
  height :: int
  width :: int
  moves_made :: "cell set"
  mines :: "cell set"
  safes :: "cell set"
  knowledge :: "nat list"
  heap :: "nat \<Rightarrow> sentence"

definition MinesweeperAI :: "int \<Rightarrow> int \<Rightarrow> ai" where
  "MinesweeperAI h w =
     \<lparr>height = h, width = w, moves_made = {}, mines = {}, safes = {}, knowledge = [],
      heap = (\<lambda>a. \<lparr>cells = {}, count = 0\<rparr>)\<rparr>"

definition kb :: "ai \<Rightarrow> sentence list" where
  "kb st = map (heap st) (knowledge st)"

definition update_at :: "(sentence \<Rightarrow> sentence) \<Rightarrow> nat \<Rightarrow> ai \<Rightarrow> ai" where
  "update_at f a st = st\<lparr>heap := (heap st)(a := f (heap st a))\<rparr>"

text \<open>\<open>MinesweeperAI.mark_mine\<close> and \<open>mark_safe\<close>, lines 168-184.\<close>

definition mark_mine :: "cell \<Rightarrow> ai \<Rightarrow> ai" where
  "mark_mine c st =
     fold (update_at (sentence_mark_mine c)) (knowledge st) (st\<lparr>mines := insert c (mines st)\<rparr>)"

definition mark_safe :: "cell \<Rightarrow> ai \<Rightarrow> ai" where
  "mark_safe c st =
     fold (update_at (sentence_mark_safe c)) (knowledge st) (st\<lparr>safes := insert c (safes st)\<rparr>)"

text \<open>
  \<open>self.knowledge.append(s)\<close> for a newly constructed \<open>Sentence\<close>, guarded by
  \<open>s not in self.knowledge\<close> (lines 216-218 and 257-260).  Membership in a Python list
  compares with \<open>__eq__\<close>, that is by value.  The flag tells whether the sentence was
  appended.  At both places the knowledge list holds the only references to sentence
  objects that are used afterwards, so the new object is stored at an address that is
  not in the list.
\<close>

definition new_address :: "nat list \<Rightarrow> nat" where
  "new_address ks = Suc (fold max ks 0)"

definition append_sentence :: "sentence \<Rightarrow> ai \<Rightarrow> ai" where
  "append_sentence s st =
     st\<lparr>knowledge := knowledge st @ [new_address (knowledge st)],
        heap := (heap st)(new_address (knowledge st) := s)\<rparr>"

definition add_if_new :: "sentence \<Rightarrow> ai \<Rightarrow> ai \<times> bool" where
  "add_if_new s st = (if s \<notin> set (kb st) then (append_sentence s st, True) else (st, False))"

text \<open>
  Lines 201-218 of \<open>add_knowledge\<close>.  \<open>range(i-1, i+2)\<close> is the list \<open>[i-1, i, i+1]\<close>;
  the two nested loops visit the nine candidates row by row, and \<open>neighbour_step\<close> is
  the loop body acting on the pair (count, neighbours).
\<close>

definition candidates :: "cell \<Rightarrow> cell list" where
  "candidates c = concat (map (\<lambda>m. map (\<lambda>n. (m, n)) [snd c - 1..snd c + 1]) [fst c - 1..fst c + 1])"

definition neighbour_step :: "ai \<Rightarrow> cell \<Rightarrow> cell \<Rightarrow> int \<times> cell set \<Rightarrow> int \<times> cell set" where
  "neighbour_step st c mn acc =
     (if (fst mn = fst c \<and> snd mn = snd c) \<or> fst mn < 0 \<or> snd mn < 0 \<or>
         fst mn \<ge> height st \<or> snd mn \<ge> width st
      then acc
      else if mn \<in> mines st then (fst acc - 1, snd acc)
      else if mn \<notin> safes st then (fst acc, insert mn (snd acc))
      else acc)"

definition neighbours :: "ai \<Rightarrow> cell \<Rightarrow> int \<Rightarrow> int \<times> cell set" where
  "neighbours st c n = fold (neighbour_step st c) (candidates c) (n, {})"

definition add_new_sentence :: "cell \<Rightarrow> int \<Rightarrow> ai \<Rightarrow> ai" where
  "add_new_sentence c n st =
     (let st1 = mark_safe c (st\<lparr>moves_made := insert c (moves_made st)\<rparr>);
          (n', nbrs) = neighbours st1 c n
      in if nbrs \<noteq> {} then fst (add_if_new \<lparr>cells = nbrs, count = n'\<rparr> st1) else st1)"

text \<open>
  The first \<open>for\<close> loop of the \<open>while\<close> body, lines 223-238, over the addresses of
  \<open>self.knowledge.copy()\<close>.  \<open>discard_cell\<close> is lines 225-227, \<open>remove_empty\<close> lines
  229-230, \<open>mark_known_mines\<close> lines 233-235 and \<open>mark_known_safes\<close> lines 236-238.
  \<open>list.remove(x)\<close> deletes the first entry equal to \<open>x\<close> (by \<open>__eq__\<close>) and raises
  \<open>ValueError\<close> when there is none.  A loop over a Python set visits its elements in
  an order the language leaves open; the model takes the sorted order.
\<close>

fun list_remove :: "(nat \<Rightarrow> sentence) \<Rightarrow> sentence \<Rightarrow> nat list \<Rightarrow> error + nat list" where
  "list_remove h s [] = Inl ValueError"
| "list_remove h s (b # bs) =
     (if h b = s then Inr bs
      else case list_remove h s bs of Inl e \<Rightarrow> Inl e | Inr bs' \<Rightarrow> Inr (b # bs'))"

definition discard_cell :: "cell \<Rightarrow> nat \<Rightarrow> ai \<times> bool \<Rightarrow> ai \<times> bool" where
  "discard_cell c a sp =
     (if c \<in> cells (heap (fst sp) a)
      then (update_at (\<lambda>s. s\<lparr>cells := cells s - {c}\<rparr>) a (fst sp), True)
      else sp)"

definition remove_empty :: "nat \<Rightarrow> ai \<Rightarrow> error + ai" where
  "remove_empty a st =
     (if cells (heap st a) = {}
      then case list_remove (heap st) (heap st a) (knowledge st) of
             Inl e \<Rightarrow> Inl e
           | Inr ks \<Rightarrow> Inr (st\<lparr>knowledge := ks\<rparr>)
      else Inr st)"

definition mark_known_mines :: "nat \<Rightarrow> ai \<times> bool \<Rightarrow> ai \<times> bool" where
  "mark_known_mines a sp =
     (let blocks = sorted_list_of_set (known_mines (heap (fst sp) a))
      in (fold mark_mine blocks (fst sp), snd sp \<or> blocks \<noteq> []))"

definition mark_known_safes :: "nat \<Rightarrow> ai \<times> bool \<Rightarrow> ai \<times> bool" where
  "mark_known_safes a sp =
     (let blocks = sorted_list_of_set (known_safes (heap (fst sp) a))
      in (fold mark_safe blocks (fst sp), snd sp \<or> blocks \<noteq> []))"

definition pass_step :: "cell \<Rightarrow> nat \<Rightarrow> ai \<times> bool \<Rightarrow> error + ai \<times> bool" where
  "pass_step c a sp =
     (let sp1 = discard_cell c a sp
      in case remove_empty a (fst sp1) of
           Inl e \<Rightarrow> Inl e
         | Inr st2 \<Rightarrow> Inr (mark_known_safes a (mark_known_mines a (st2, snd sp1))))"

fun mark_pass :: "cell \<Rightarrow> nat list \<Rightarrow> ai \<times> bool \<Rightarrow> error + ai \<times> bool" where
  "mark_pass c [] sp = Inr sp"
| "mark_pass c (a # as) sp =
     (case pass_step c a sp of Inl e \<Rightarrow> Inl e | Inr sp' \<Rightarrow> mark_pass c as sp')"

text \<open>
  The second loop, lines 242-255: \<open>infer_pair s f\<close> is the body of the inner loop for
  \<open>sentence = s\<close> and \<open>following = f\<close>, \<open>self.knowledge[i+1:]\<close> is the rest of the list
  after \<open>s\<close>, and \<open><\<close> on Python sets is the strict subset.
\<close>

definition infer_pair :: "sentence \<Rightarrow> sentence \<Rightarrow> sentence list" where
  "infer_pair s f =
     (if cells f \<subset> cells s \<and> cells s - cells f \<noteq> {}
      then [\<lparr>cells = cells s - cells f, count = count s - count f\<rparr>] else []) @
     (if cells s \<subset> cells f \<and> cells f - cells s \<noteq> {}
      then [\<lparr>cells = cells f - cells s, count = count f - count s\<rparr>] else [])"

fun infered_sentences :: "sentence list \<Rightarrow> sentence list" where
  "infered_sentences [] = []"
| "infered_sentences (s # following) =
     concat (map (infer_pair s) following) @ infered_sentences following"

text \<open>The third loop, lines 257-260.\<close>

fun add_infered :: "sentence list \<Rightarrow> ai \<times> bool \<Rightarrow> ai \<times> bool" where
  "add_infered [] sp = sp"
| "add_infered (s # ss) sp =
     (case add_if_new s (fst sp) of (st', added) \<Rightarrow> add_infered ss (st', snd sp \<or> added))"

text \<open>
  The \<open>while possible_inference\<close> loop, lines 220-260: the flag is True on entry, so
  the body runs once and is repeated as long as it sets the flag.  The loop need not
  end, so it is a partial function: \<open>None\<close> means that it runs forever, \<open>Some (Inl e)\<close>
  that it raises \<open>e\<close>, and \<open>Some (Inr st)\<close> that it ends in state \<open>st\<close>.
\<close>

definition inference_pass :: "cell \<Rightarrow> ai \<Rightarrow> error + ai \<times> bool" where
  "inference_pass c st =
     (case mark_pass c (knowledge st) (st, False) of
        Inl e \<Rightarrow> Inl e
      | Inr sp \<Rightarrow> Inr (add_infered (infered_sentences (kb (fst sp))) sp))"

partial_function (option) closure :: "cell \<Rightarrow> ai \<Rightarrow> (error + ai) option" where
  "closure c st =
     (case inference_pass c st of
        Inl e \<Rightarrow> Some (Inl e)
      | Inr sp \<Rightarrow> if snd sp then closure c (fst sp) else Some (Inr (fst sp)))"

declare closure.simps [code]

definition add_knowledge :: "cell \<Rightarrow> int \<Rightarrow> ai \<Rightarrow> (error + ai) option" where
  "add_knowledge c n st = closure c (add_new_sentence c n st)"

section \<open>Random moves\<close>

text \<open>
  \<open>make_random_move\<close>, lines 285-297.  The random source is a stream of natural
  numbers, one element per call of \<open>random.randint\<close>, which any sequence of draws
  can be.  \<open>random.randint(a, b)\<close> returns an integer between \<open>a\<close> and \<open>b\<close>, both
  included, and raises \<open>ValueError\<close> when the range is empty; the stream element is
  reduced into the range.  \<open>random_cell\<close> is the pair of draws on the right of an
  assignment to \<open>(i, j)\<close>, \<open>random_attempt\<close> is lines 293-295, and the \<open>while True\<close>
  loop is a partial function: \<open>None\<close> means that the call never returns,
  \<open>Some (Inr c)\<close> that it returns the cell \<open>c\<close>.  The function has no statement
  that returns Python's \<open>None\<close>, and the \<open>raise\<close> after the loop cannot be reached.
\<close>

definition randint :: "int \<Rightarrow> int \<Rightarrow> nat stream \<Rightarrow> error + int \<times> nat stream" where
  "randint a b rs =
     (if b < a then Inl ValueError else Inr (a + int (shd rs mod nat (b - a + 1)), stl rs))"

definition random_cell :: "ai \<Rightarrow> nat stream \<Rightarrow> error + cell \<times> nat stream" where
  "random_cell st rs =
     (case randint 0 (height st - 1) rs of
        Inl e \<Rightarrow> Inl e
      | Inr (i, rs1) \<Rightarrow>
          (case randint 0 (width st - 1) rs1 of
             Inl e \<Rightarrow> Inl e
           | Inr (j, rs2) \<Rightarrow> Inr ((i, j), rs2)))"

definition random_attempt :: "ai \<Rightarrow> nat stream \<Rightarrow> error + cell \<times> nat stream" where
  "random_attempt st rs =
     (case random_cell st rs of
        Inl e \<Rightarrow> Inl e
      | Inr (c, rs1) \<Rightarrow>
          if c \<in> moves_made st \<or> c \<in> mines st then random_cell st rs1 else Inr (c, rs1))"

partial_function (option) make_random_move :: "ai \<Rightarrow> nat stream \<Rightarrow> (error + cell) option" where
  "make_random_move st rs =
     (case random_attempt st rs of
        Inl e \<Rightarrow> Some (Inl e)
      | Inr (c, rs') \<Rightarrow>
          if c \<notin> moves_made st \<and> c \<notin> mines st then Some (Inr c) else make_random_move st rs')"

declare make_random_move.simps [code]

section \<open>Minesweeper\<close>

text \<open>
  The game (\<open>minesweeper.py\<close>, lines 5-84), as far as the observations fed to the engine
  depend on it.  The fields \<open>height\<close> and \<open>width\<close> are called \<open>board_height\<close> and
  \<open>board_width\<close> here, since the engine has fields of the same names.  \<open>board\<close> is the
  list of rows of booleans; \<open>board_ok\<close> says that it has \<open>height\<close> rows of \<open>width\<close>
  entries, as the constructor builds it, and the lookups below are made inside these
  bounds.  \<open>nearby_mines\<close> is lines 55-78: its two nested loops visit the same nine
  candidates as the loops of \<open>add_knowledge\<close>.
\<close>

record minesweeper =
  board_height :: int
  board_width :: int
  board :: "bool list list"

definition is_mine :: "minesweeper \<Rightarrow> cell \<Rightarrow> bool" where
  "is_mine g c = board g ! nat (fst c) ! nat (snd c)"

definition nearby_step :: "minesweeper \<Rightarrow> cell \<Rightarrow> cell \<Rightarrow> int \<Rightarrow> int" where
  "nearby_step g c ij n =
     (if ij = c then n
      else if 0 \<le> fst ij \<and> fst ij < board_height g \<and> 0 \<le> snd ij \<and> snd ij < board_width g
      then (if is_mine g ij then n + 1 else n)
      else n)"

definition nearby_mines :: "minesweeper \<Rightarrow> cell \<Rightarrow> int" where
  "nearby_mines g c = fold (nearby_step g c) (candidates c) 0"

definition board_ok :: "minesweeper \<Rightarrow> bool" where
  "board_ok g \<longleftrightarrow>
     int (length (board g)) = board_height g \<and>
     (\<forall>row \<in> set (board g). int (length row) = board_width g)"

text \<open>
  An observation of the board \<open>g\<close> is what the game loop feeds to \<open>add_knowledge\<close>: a
  cell of the board that is not a mine, with the number \<open>nearby_mines\<close> gives for it.
  \<open>observations\<close> feeds a sequence of pairs (cell, count) to the engine, one call of
  \<open>add_knowledge\<close> after the other; it has no result when one of the calls does not
  return.  \<open>mine_cells\<close> is the set of cells of the board that hold a mine.
\<close>

definition observation_of :: "minesweeper \<Rightarrow> cell \<times> int \<Rightarrow> bool" where
  "observation_of g ob \<longleftrightarrow>
     0 \<le> fst (fst ob) \<and> fst (fst ob) < board_height g \<and>
     0 \<le> snd (fst ob) \<and> snd (fst ob) < board_width g \<and>
     \<not> is_mine g (fst ob) \<and> snd ob = nearby_mines g (fst ob)"

fun observations :: "(cell \<times> int) list \<Rightarrow> ai \<Rightarrow> (error + ai) option" where
  "observations [] st = Some (Inr st)"
| "observations (ob # obs) st =
     (case add_knowledge (fst ob) (snd ob) st of
        None \<Rightarrow> None
      | Some (Inl e) \<Rightarrow> Some (Inl e)
      | Some (Inr st') \<Rightarrow> observations obs st')"

definition mine_cells :: "minesweeper \<Rightarrow> cell set" where
  "mine_cells g = {c. 0 \<le> fst c \<and> fst c < board_height g \<and> 0 \<le> snd c \<and> snd c < board_width g \<and> is_mine g c}"

text \<open>
  The engine states reached on a board \<open>g\<close> by calls that are true of \<open>g\<close>: starting
  from a new engine of the board's size, \<open>add_knowledge\<close> is called with observations
  of \<open>g\<close>, \<open>mark_mine\<close> with mines of \<open>g\<close>, and \<open>mark_safe\<close> with cells that are not
  mines of \<open>g\<close>.  The last two rules add the states inside a call of
  \<open>add_knowledge\<close>: after its lines 201-218, and after each pass of its loop.
\<close>

inductive reached_on :: "minesweeper \<Rightarrow> ai \<Rightarrow> bool" for g :: minesweeper where
  start: "reached_on g (MinesweeperAI (board_height g) (board_width g))"
| observe: "reached_on g st \<Longrightarrow> observation_of g (c, n) \<Longrightarrow> add_knowledge c n st = Some (Inr st') \<Longrightarrow>
     reached_on g st'"
| flag_mine: "reached_on g st \<Longrightarrow> c \<in> mine_cells g \<Longrightarrow> reached_on g (mark_mine c st)"
| flag_safe: "reached_on g st \<Longrightarrow> c \<notin> mine_cells g \<Longrightarrow> reached_on g (mark_safe c st)"
| new_sentence: "reached_on g st \<Longrightarrow> observation_of g (c, n) \<Longrightarrow> reached_on g (add_new_sentence c n st)"
| pass: "reached_on g st \<Longrightarrow> c \<in> safes st \<Longrightarrow> inference_pass c st = Inr sp \<Longrightarrow> reached_on g (fst sp)"

section \<open>Properties of Sentence\<close>

text \<open>
  C8.  \<open>known_mines\<close> gives back the whole cell set exactly when the count equals the
  number of cells and the empty set otherwise; \<open>known_safes\<close> gives back the whole set
  exactly when the count is 0 and the empty set otherwise.  Both are functions from a
  sentence to a set of cells, so the sentence they read is left as it was.
\<close>

theorem known_mines_known_safes_spec:
  "(count s = int (card (cells s)) \<longrightarrow> known_mines s = cells s) \<and>
   (count s \<noteq> int (card (cells s)) \<longrightarrow> known_mines s = {}) \<and>
   (count s = 0 \<longrightarrow> known_safes s = cells s) \<and>
   (count s \<noteq> 0 \<longrightarrow> known_safes s = {})"
  by (simp add: known_mines_def known_safes_def)

theorem known_mines_known_safes_spec_witness:
  "known_mines \<lparr>cells = {(0, 1), (1, 1)}, count = 2\<rparr> = {(0, 1), (1, 1)} \<and>
   known_mines \<lparr>cells = {(0, 1), (1, 1)}, count = 1\<rparr> = {} \<and>
   known_safes \<lparr>cells = {(0, 1), (1, 1)}, count = 0\<rparr> = {(0, 1), (1, 1)} \<and>
   known_safes \<lparr>cells = {(0, 1), (1, 1)}, count = 1\<rparr> = {}"
  using known_mines_known_safes_spec [of "\<lparr>cells = {(0, 1), (1, 1)}, count = 2\<rparr>"]
    known_mines_known_safes_spec [of "\<lparr>cells = {(0, 1), (1, 1)}, count = 1\<rparr>"]
    known_mines_known_safes_spec [of "\<lparr>cells = {(0, 1), (1, 1)}, count = 0\<rparr>"]
  by simp

text \<open>
  C9.  On a member cell \<open>mark_mine\<close> removes the cell and lowers the count by one and
  \<open>mark_safe\<close> removes the cell and keeps the count; on any other cell both leave the
  sentence as it is.  Hence a second application with the same cell changes nothing.
\<close>

theorem sentence_mark_spec:
  "(c \<in> cells s \<longrightarrow>
      sentence_mark_mine c s = \<lparr>cells = cells s - {c}, count = count s - 1\<rparr> \<and>
      sentence_mark_safe c s = \<lparr>cells = cells s - {c}, count = count s\<rparr>) \<and>
   (c \<notin> cells s \<longrightarrow> sentence_mark_mine c s = s \<and> sentence_mark_safe c s = s) \<and>
   sentence_mark_mine c (sentence_mark_mine c s) = sentence_mark_mine c s \<and>
   sentence_mark_safe c (sentence_mark_safe c s) = sentence_mark_safe c s"
  by (simp add: sentence_mark_mine_def sentence_mark_safe_def)

theorem sentence_mark_spec_witness:
  "sentence_mark_mine (0, 1) \<lparr>cells = {(0, 1), (1, 1)}, count = 2\<rparr> = \<lparr>cells = {(1, 1)}, count = 1\<rparr> \<and>
   sentence_mark_safe (0, 1) \<lparr>cells = {(0, 1), (1, 1)}, count = 2\<rparr> = \<lparr>cells = {(1, 1)}, count = 2\<rparr> \<and>
   sentence_mark_mine (5, 5) \<lparr>cells = {(0, 1), (1, 1)}, count = 2\<rparr> = \<lparr>cells = {(0, 1), (1, 1)}, count = 2\<rparr> \<and>
   sentence_mark_safe (5, 5) \<lparr>cells = {(0, 1), (1, 1)}, count = 2\<rparr> = \<lparr>cells = {(0, 1), (1, 1)}, count = 2\<rparr>"
  using sentence_mark_spec [of "(0, 1)" "\<lparr>cells = {(0, 1), (1, 1)}, count = 2\<rparr>"]
    sentence_mark_spec [of "(5, 5)" "\<lparr>cells = {(0, 1), (1, 1)}, count = 2\<rparr>"]
  by auto

section \<open>The new sentence of an observation\<close>

definition valid_nbr :: "ai \<Rightarrow> cell \<Rightarrow> cell \<Rightarrow> bool" where
  "valid_nbr st c mn \<longleftrightarrow> mn \<noteq> c \<and> 0 \<le> fst mn \<and> 0 \<le> snd mn \<and> fst mn < height st \<and> snd mn < width st"

lemma candidates_explicit:
  "candidates (i, j) = [(i - 1, j - 1), (i - 1, j), (i - 1, j + 1),
                        (i, j - 1), (i, j), (i, j + 1),
                        (i + 1, j - 1), (i + 1, j), (i + 1, j + 1)]"
  by (simp add: candidates_def upto_rec1)

lemma distinct_candidates: "distinct (candidates c)"
  by (cases c) (simp add: candidates_explicit)

lemma set_candidates:
  "set (candidates c) = {mn. fst c - 1 \<le> fst mn \<and> fst mn \<le> fst c + 1 \<and> snd c - 1 \<le> snd mn \<and> snd mn \<le> snd c + 1}"
  by (auto simp: candidates_def)

lemma fold_neighbour_step:
  "distinct xs \<Longrightarrow>
   fold (neighbour_step st c) xs (k, A) =
     (k - int (card {x \<in> set xs. valid_nbr st c x \<and> x \<in> mines st}),
      A \<union> {x \<in> set xs. valid_nbr st c x \<and> x \<notin> mines st \<and> x \<notin> safes st})"
proof (induction xs arbitrary: k A)
  case Nil
  then show ?case by simp
next
  case (Cons x xs)
  have fin: "finite {y \<in> set xs. valid_nbr st c y \<and> y \<in> mines st}" by simp
  have x_notin: "x \<notin> set xs" using Cons.prems by simp
  show ?case
  proof (cases "valid_nbr st c x")
    case False
    then have step: "neighbour_step st c x (k, A) = (k, A)"
      by (auto simp: neighbour_step_def valid_nbr_def prod_eq_iff)
    have "{y \<in> set (x # xs). valid_nbr st c y \<and> y \<in> mines st} = {y \<in> set xs. valid_nbr st c y \<and> y \<in> mines st}"
      using False by auto
    moreover have "{y \<in> set (x # xs). valid_nbr st c y \<and> y \<notin> mines st \<and> y \<notin> safes st} = {y \<in> set xs. valid_nbr st c y \<and> y \<notin> mines st \<and> y \<notin> safes st}"
      using False by auto
    ultimately show ?thesis using Cons step by simp
  next
    case True
    then have guard: "\<not> ((fst x = fst c \<and> snd x = snd c) \<or> fst x < 0 \<or> snd x < 0 \<or> fst x \<ge> height st \<or> snd x \<ge> width st)"
      by (auto simp: valid_nbr_def prod_eq_iff)
    show ?thesis
    proof (cases "x \<in> mines st")
      case mine: True
      have step: "neighbour_step st c x (k, A) = (k - 1, A)"
        using guard mine by (simp add: neighbour_step_def)
      have "{y \<in> set (x # xs). valid_nbr st c y \<and> y \<in> mines st} = insert x {y \<in> set xs. valid_nbr st c y \<and> y \<in> mines st}"
        using True mine by auto
      then have "card {y \<in> set (x # xs). valid_nbr st c y \<and> y \<in> mines st} = Suc (card {y \<in> set xs. valid_nbr st c y \<and> y \<in> mines st})"
        using x_notin fin by simp
      moreover have "{y \<in> set (x # xs). valid_nbr st c y \<and> y \<notin> mines st \<and> y \<notin> safes st} = {y \<in> set xs. valid_nbr st c y \<and> y \<notin> mines st \<and> y \<notin> safes st}"
        using mine by auto
      ultimately show ?thesis using Cons step by simp
    next
      case nomine: False
      have eqm: "{y \<in> set (x # xs). valid_nbr st c y \<and> y \<in> mines st} = {y \<in> set xs. valid_nbr st c y \<and> y \<in> mines st}"
        using nomine by auto
      show ?thesis
      proof (cases "x \<in> safes st")
        case True
        have step: "neighbour_step st c x (k, A) = (k, A)"
          using guard nomine True by (simp add: neighbour_step_def)
        have "{y \<in> set (x # xs). valid_nbr st c y \<and> y \<notin> mines st \<and> y \<notin> safes st} = {y \<in> set xs. valid_nbr st c y \<and> y \<notin> mines st \<and> y \<notin> safes st}"
          using True by auto
        then show ?thesis using Cons step eqm by simp
      next
        case False
        have step: "neighbour_step st c x (k, A) = (k, insert x A)"
          using guard nomine False by (auto simp: neighbour_step_def)
        have "{y \<in> set (x # xs). valid_nbr st c y \<and> y \<notin> mines st \<and> y \<notin> safes st} = insert x {y \<in> set xs. valid_nbr st c y \<and> y \<notin> mines st \<and> y \<notin> safes st}"
          using False nomine \<open>valid_nbr st c x\<close> by auto
        then show ?thesis using Cons step eqm by simp
      qed
    qed
  qed
qed


lemma fold_update_at_fields [simp]:
  "height (fold (update_at f) ks st) = height st"
  "width (fold (update_at f) ks st) = width st"
  "moves_made (fold (update_at f) ks st) = moves_made st"
  "mines (fold (update_at f) ks st) = mines st"
  "safes (fold (update_at f) ks st) = safes st"
  "knowledge (fold (update_at f) ks st) = knowledge st"
  by (induction ks arbitrary: st; simp add: update_at_def)+

lemma heap_fold_update_at:
  assumes "\<And>s. f (f s) = f s"
  shows "heap (fold (update_at f) ks st) a = (if a \<in> set ks then f (heap st a) else heap st a)"
proof (induction ks arbitrary: st)
  case Nil
  then show ?case by simp
next
  case (Cons k ks)
  then show ?case using assms by (simp add: update_at_def)
qed

lemma sentence_mark_mine_idem: "sentence_mark_mine c (sentence_mark_mine c s) = sentence_mark_mine c s"
  by (simp add: sentence_mark_mine_def)

lemma sentence_mark_safe_idem: "sentence_mark_safe c (sentence_mark_safe c s) = sentence_mark_safe c s"
  by (simp add: sentence_mark_safe_def)

lemma mark_mine_fields [simp]:
  "height (mark_mine c st) = height st"
  "width (mark_mine c st) = width st"
  "moves_made (mark_mine c st) = moves_made st"
  "mines (mark_mine c st) = insert c (mines st)"
  "safes (mark_mine c st) = safes st"
  "knowledge (mark_mine c st) = knowledge st"
  by (simp_all add: mark_mine_def)

lemma mark_safe_fields [simp]:
  "height (mark_safe c st) = height st"
  "width (mark_safe c st) = width st"
  "moves_made (mark_safe c st) = moves_made st"
  "mines (mark_safe c st) = mines st"
  "safes (mark_safe c st) = insert c (safes st)"
  "knowledge (mark_safe c st) = knowledge st"
  by (simp_all add: mark_safe_def)

lemma heap_mark_mine:
  "heap (mark_mine c st) a = (if a \<in> set (knowledge st) then sentence_mark_mine c (heap st a) else heap st a)"
  by (simp add: mark_mine_def heap_fold_update_at sentence_mark_mine_idem)

lemma heap_mark_safe:
  "heap (mark_safe c st) a = (if a \<in> set (knowledge st) then sentence_mark_safe c (heap st a) else heap st a)"
  by (simp add: mark_safe_def heap_fold_update_at sentence_mark_safe_idem)

lemma kb_mark_mine: "kb (mark_mine c st) = map (sentence_mark_mine c) (kb st)"
  by (simp add: kb_def heap_mark_mine)

lemma kb_mark_safe: "kb (mark_safe c st) = map (sentence_mark_safe c) (kb st)"
  by (simp add: kb_def heap_mark_safe)

lemma kb_moves_made_update [simp]: "kb (st\<lparr>moves_made := m\<rparr>) = kb st"
  by (simp add: kb_def)

lemma fold_max_ge: "(m::nat) \<le> fold max ks m"
  by (induction ks arbitrary: m) (auto intro: order_trans [OF max.cobounded2])

lemma fold_max_bound: "k \<in> set ks \<Longrightarrow> (k::nat) \<le> fold max ks m"
proof (induction ks arbitrary: m)
  case Nil
  then show ?case by simp
next
  case (Cons x xs)
  show ?case
  proof (cases "k = x")
    case True
    have "x \<le> max x m" by simp
    also have "\<dots> \<le> fold max xs (max x m)" by (rule fold_max_ge)
    finally show ?thesis using True by simp
  next
    case False
    then show ?thesis using Cons by simp
  qed
qed

lemma new_address_fresh: "new_address ks \<notin> set ks"
  using fold_max_bound [of "new_address ks" ks 0] by (auto simp: new_address_def)

lemma kb_append_sentence: "kb (append_sentence s st) = kb st @ [s]"
  using new_address_fresh [of "knowledge st"] by (simp add: kb_def append_sentence_def)

lemma append_sentence_fields [simp]:
  "height (append_sentence s st) = height st"
  "width (append_sentence s st) = width st"
  "moves_made (append_sentence s st) = moves_made st"
  "mines (append_sentence s st) = mines st"
  "safes (append_sentence s st) = safes st"
  by (simp_all add: append_sentence_def)

lemma add_if_new_fields [simp]:
  "height (fst (add_if_new s st)) = height st"
  "width (fst (add_if_new s st)) = width st"
  "moves_made (fst (add_if_new s st)) = moves_made st"
  "mines (fst (add_if_new s st)) = mines st"
  "safes (fst (add_if_new s st)) = safes st"
  by (simp_all add: add_if_new_def)

lemma kb_add_if_new: "kb (fst (add_if_new s st)) = (if s \<in> set (kb st) then kb st else kb st @ [s])"
  by (simp add: add_if_new_def kb_append_sentence)


lemma neighbours_eq:
  "neighbours st c n =
     (n - int (card {x \<in> set (candidates c). valid_nbr st c x \<and> x \<in> mines st}),
      {x \<in> set (candidates c). valid_nbr st c x \<and> x \<notin> mines st \<and> x \<notin> safes st})"
  by (simp add: neighbours_def fold_neighbour_step [OF distinct_candidates])


lemma valid_candidates:
  "{x \<in> set (candidates c). valid_nbr st c x \<and> P x} =
   {mn. mn \<noteq> c \<and> fst c - 1 \<le> fst mn \<and> fst mn \<le> fst c + 1 \<and>
        snd c - 1 \<le> snd mn \<and> snd mn \<le> snd c + 1 \<and>
        0 \<le> fst mn \<and> fst mn < height st \<and> 0 \<le> snd mn \<and> snd mn < width st} \<inter> {x. P x}"
  by (auto simp: set_candidates valid_nbr_def)

text \<open>
  C7.  Lines 201-218 of \<open>add_knowledge\<close>, after which the closure loop runs.  With \<open>N\<close>
  the cells other than \<open>c\<close> within one row and one column of \<open>c\<close> and inside the
  board: the cell is added to \<open>moves_made\<close> and to \<open>safes\<close> (and removed from every
  sentence of the knowledge base, as \<open>mark_safe\<close> does), the remaining cells are the
  neighbours that are neither known mines nor known safes, the count is lowered by
  one for each neighbour that is a known mine, and the sentence (remaining, adjusted)
  is appended when the remaining set is not empty and no equal sentence is there.
\<close>

theorem add_new_sentence_spec:
  "let N = {mn. mn \<noteq> c \<and> fst c - 1 \<le> fst mn \<and> fst mn \<le> fst c + 1 \<and>
                snd c - 1 \<le> snd mn \<and> snd mn \<le> snd c + 1 \<and>
                0 \<le> fst mn \<and> fst mn < height st \<and> 0 \<le> snd mn \<and> snd mn < width st};
       remaining = N - mines st - safes st;
       adjusted = n - int (card (N \<inter> mines st));
       old = map (sentence_mark_safe c) (kb st);
       st' = add_new_sentence c n st
   in add_knowledge c n st = closure c st' \<and>
      moves_made st' = insert c (moves_made st) \<and>
      safes st' = insert c (safes st) \<and>
      mines st' = mines st \<and>
      kb st' = (if remaining \<noteq> {} \<and> \<lparr>cells = remaining, count = adjusted\<rparr> \<notin> set old
                then old @ [\<lparr>cells = remaining, count = adjusted\<rparr>] else old)"
proof -
  define N where "N = {mn. mn \<noteq> c \<and> fst c - 1 \<le> fst mn \<and> fst mn \<le> fst c + 1 \<and>
                snd c - 1 \<le> snd mn \<and> snd mn \<le> snd c + 1 \<and>
                0 \<le> fst mn \<and> fst mn < height st \<and> 0 \<le> snd mn \<and> snd mn < width st}"
  define st1 where "st1 = mark_safe c (st\<lparr>moves_made := insert c (moves_made st)\<rparr>)"
  have c_notin: "c \<notin> N" by (simp add: N_def)
  have nb: "neighbours st1 c n = (n - int (card (N \<inter> mines st)), N - mines st - safes st)"
  proof -
    have "{x. x \<in> mines st1} = mines st" "{x. x \<notin> mines st1 \<and> x \<notin> safes st1} = - mines st - insert c (safes st)"
      by (auto simp: st1_def)
    moreover have "N \<inter> (- mines st - insert c (safes st)) = N - mines st - safes st"
      using c_notin by auto
    moreover have "height st1 = height st" "width st1 = width st" by (simp_all add: st1_def)
    ultimately show ?thesis
      by (simp add: neighbours_eq valid_candidates N_def [symmetric])
  qed
  have kb1: "kb st1 = map (sentence_mark_safe c) (kb st)"
    by (simp add: st1_def kb_mark_safe)
  have fields1: "moves_made st1 = insert c (moves_made st)" "safes st1 = insert c (safes st)" "mines st1 = mines st"
    by (simp_all add: st1_def)
  have unfold: "add_new_sentence c n st =
      (if N - mines st - safes st \<noteq> {}
       then fst (add_if_new \<lparr>cells = N - mines st - safes st, count = n - int (card (N \<inter> mines st))\<rparr> st1)
       else st1)"
    by (simp add: add_new_sentence_def st1_def [symmetric] nb)
  show ?thesis
    unfolding Let_def N_def [symmetric]
    by (simp add: unfold add_knowledge_def kb_add_if_new kb1 fields1)
qed

section \<open>Subset inference\<close>

lemma infer_pair_sub:
  "cells s \<subset> cells f \<Longrightarrow> \<lparr>cells = cells f - cells s, count = count f - count s\<rparr> \<in> set (infer_pair s f)"
  "cells f \<subset> cells s \<Longrightarrow> \<lparr>cells = cells s - cells f, count = count s - count f\<rparr> \<in> set (infer_pair s f)"
  by (auto simp: infer_pair_def)

lemma infered_sentences_lt1:
  "i < j \<Longrightarrow> j < length K \<Longrightarrow> cells (K ! i) \<subset> cells (K ! j) \<Longrightarrow>
     \<lparr>cells = cells (K ! j) - cells (K ! i), count = count (K ! j) - count (K ! i)\<rparr> \<in> set (infered_sentences K)"
proof (induction K arbitrary: i j)
  case Nil
  then show ?case by simp
next
  case (Cons s rest)
  obtain j' where j': "j = Suc j'" "j' < length rest" using Cons.prems by (cases j) auto
  show ?case
  proof (cases i)
    case 0
    have "rest ! j' \<in> set rest" using j' by simp
    moreover have "cells s \<subset> cells (rest ! j')" using Cons.prems 0 j' by simp
    ultimately show ?thesis using 0 j' infer_pair_sub(1) [of s "rest ! j'"] by auto
  next
    case (Suc i')
    then have "i' < j'" using Cons.prems j' by simp
    moreover have "cells (rest ! i') \<subset> cells (rest ! j')" using Cons.prems Suc j' by simp
    ultimately show ?thesis using Cons.IH [of i' j'] j' Suc by simp
  qed
qed

lemma infered_sentences_lt2:
  "i < j \<Longrightarrow> j < length K \<Longrightarrow> cells (K ! j) \<subset> cells (K ! i) \<Longrightarrow>
     \<lparr>cells = cells (K ! i) - cells (K ! j), count = count (K ! i) - count (K ! j)\<rparr> \<in> set (infered_sentences K)"
proof (induction K arbitrary: i j)
  case Nil
  then show ?case by simp
next
  case (Cons s rest)
  obtain j' where j': "j = Suc j'" "j' < length rest" using Cons.prems by (cases j) auto
  show ?case
  proof (cases i)
    case 0
    have "rest ! j' \<in> set rest" using j' by simp
    moreover have "cells (rest ! j') \<subset> cells s" using Cons.prems 0 j' by simp
    ultimately show ?thesis using 0 j' infer_pair_sub(2) [of "rest ! j'" s] by auto
  next
    case (Suc i')
    then have "i' < j'" using Cons.prems j' by simp
    moreover have "cells (rest ! j') \<subset> cells (rest ! i')" using Cons.prems Suc j' by simp
    ultimately show ?thesis using Cons.IH [of i' j'] j' Suc by simp
  qed
qed

lemma infered_sentences_pair:
  assumes "i < length K" "j < length K" "i \<noteq> j" "cells (K ! i) \<subset> cells (K ! j)"
  shows "\<lparr>cells = cells (K ! j) - cells (K ! i), count = count (K ! j) - count (K ! i)\<rparr> \<in> set (infered_sentences K)"
proof (cases "i < j")
  case True
  then show ?thesis using assms infered_sentences_lt1 [of i j K] by simp
next
  case False
  then have "j < i" using assms by simp
  then show ?thesis using assms infered_sentences_lt2 [of j i K] by simp
qed

lemma kb_add_infered:
  "\<exists>new. kb (fst (add_infered ss sp)) = kb (fst sp) @ new \<and> set new \<subseteq> set ss \<and>
         set ss \<subseteq> set (kb (fst sp)) \<union> set new \<and>
         snd (add_infered ss sp) = (snd sp \<or> new \<noteq> [])"
proof (induction ss arbitrary: sp)
  case Nil
  then show ?case by simp
next
  case (Cons s ss)
  show ?case
  proof (cases "s \<in> set (kb (fst sp))")
    case True
    then have step: "add_infered (s # ss) sp = add_infered ss sp"
      by (simp add: add_if_new_def)
    from Cons [of sp] obtain new where
      "kb (fst (add_infered ss sp)) = kb (fst sp) @ new" "set new \<subseteq> set ss"
      "set ss \<subseteq> set (kb (fst sp)) \<union> set new" "snd (add_infered ss sp) = (snd sp \<or> new \<noteq> [])"
      by blast
    then show ?thesis using True step by (intro exI [of _ new]) auto
  next
    case False
    then have step: "add_infered (s # ss) sp = add_infered ss (append_sentence s (fst sp), True)"
      by (simp add: add_if_new_def)
    from Cons [of "(append_sentence s (fst sp), True)"] obtain new where
      "kb (fst (add_infered ss (append_sentence s (fst sp), True))) = kb (append_sentence s (fst sp)) @ new"
      "set new \<subseteq> set ss"
      "set ss \<subseteq> set (kb (append_sentence s (fst sp))) \<union> set new"
      "snd (add_infered ss (append_sentence s (fst sp), True))"
      by auto
    then show ?thesis using step by (intro exI [of _ "s # new"]) (auto simp: kb_append_sentence)
  qed
qed


text \<open>
  The example of the specification: the cells 1 to 5 are the cells \<open>(0, 1)\<close> to
  \<open>(0, 5)\<close> of an 8 by 8 board, the knowledge base holds \<open>({1,2,3}, 1)\<close> and
  \<open>({1,2,3,4,5}, 2)\<close>, and the closure loop is run for the observed cell \<open>(7, 7)\<close>.
\<close>

definition subset_example :: ai where
  "subset_example = (MinesweeperAI 8 8)\<lparr>knowledge := [0, 1],
      heap := (\<lambda>a. \<lparr>cells = {}, count = 0\<rparr>)
        (0 := \<lparr>cells = {(0, 1), (0, 2), (0, 3)}, count = 1\<rparr>,
         1 := \<lparr>cells = {(0, 1), (0, 2), (0, 3), (0, 4), (0, 5)}, count = 2\<rparr>)\<rparr>"

lemma subset_example_closure:
  "map_option (map_sum id kb) (closure (7, 7) subset_example) =
     Some (Inr [\<lparr>cells = {(0, 1), (0, 2), (0, 3)}, count = 1\<rparr>,
                \<lparr>cells = {(0, 1), (0, 2), (0, 3), (0, 4), (0, 5)}, count = 2\<rparr>,
                \<lparr>cells = {(0, 4), (0, 5)}, count = 1\<rparr>])"
  by code_simp

lemma subset_example_derives:
  "\<exists>st'. closure (7, 7) subset_example = Some (Inr st') \<and>
         kb st' = [\<lparr>cells = {(0, 1), (0, 2), (0, 3)}, count = 1\<rparr>,
                   \<lparr>cells = {(0, 1), (0, 2), (0, 3), (0, 4), (0, 5)}, count = 2\<rparr>,
                   \<lparr>cells = {(0, 4), (0, 5)}, count = 1\<rparr>]"
proof (cases "closure (7, 7) subset_example")
  case None
  then show ?thesis using subset_example_closure by simp
next
  case (Some r)
  then show ?thesis using subset_example_closure by (cases r) simp_all
qed

text \<open>
  C1.  Let \<open>sp\<close> be the state after the first loop of a pass of the closure loop.  For
  any two different positions \<open>i\<close> and \<open>j\<close> of the knowledge base such that the cells at
  \<open>i\<close> are a strict subset of the cells at \<open>j\<close>, the pass ends with the sentence
  (cells at \<open>j\<close> minus cells at \<open>i\<close>, count at \<open>j\<close> minus count at \<open>i\<close>) in the
  knowledge base, and when no equal sentence was there before, the pass sets
  \<open>possible_inference\<close>.  On the example, the closure loop ends with \<open>({4,5}, 1)\<close>
  appended to the two sentences.
\<close>

theorem subset_inference:
  "(\<forall>sp i j. mark_pass c (knowledge st) (st, False) = Inr sp \<and>
       i < length (kb (fst sp)) \<and> j < length (kb (fst sp)) \<and> i \<noteq> j \<and>
       cells (kb (fst sp) ! i) \<subset> cells (kb (fst sp) ! j) \<longrightarrow>
       (\<exists>sp'. inference_pass c st = Inr sp' \<and>
          \<lparr>cells = cells (kb (fst sp) ! j) - cells (kb (fst sp) ! i),
            count = count (kb (fst sp) ! j) - count (kb (fst sp) ! i)\<rparr> \<in> set (kb (fst sp')) \<and>
          (\<lparr>cells = cells (kb (fst sp) ! j) - cells (kb (fst sp) ! i),
             count = count (kb (fst sp) ! j) - count (kb (fst sp) ! i)\<rparr> \<notin> set (kb (fst sp)) \<longrightarrow> snd sp'))) \<and>
   (\<exists>st'. closure (7, 7) subset_example = Some (Inr st') \<and>
       kb st' = [\<lparr>cells = {(0, 1), (0, 2), (0, 3)}, count = 1\<rparr>,
                 \<lparr>cells = {(0, 1), (0, 2), (0, 3), (0, 4), (0, 5)}, count = 2\<rparr>,
                 \<lparr>cells = {(0, 4), (0, 5)}, count = 1\<rparr>])"
proof (intro conjI allI impI)
  fix sp i j
  assume a: "mark_pass c (knowledge st) (st, False) = Inr sp \<and>
       i < length (kb (fst sp)) \<and> j < length (kb (fst sp)) \<and> i \<noteq> j \<and>
       cells (kb (fst sp) ! i) \<subset> cells (kb (fst sp) ! j)"
  define d where "d = \<lparr>cells = cells (kb (fst sp) ! j) - cells (kb (fst sp) ! i),
            count = count (kb (fst sp) ! j) - count (kb (fst sp) ! i)\<rparr>"
  define sp' where "sp' = add_infered (infered_sentences (kb (fst sp))) sp"
  have pass: "inference_pass c st = Inr sp'"
    using a by (simp add: inference_pass_def sp'_def)
  have d_in: "d \<in> set (infered_sentences (kb (fst sp)))"
    unfolding d_def using a by (intro infered_sentences_pair) simp_all
  obtain new where new: "kb (fst sp') = kb (fst sp) @ new"
      "set (infered_sentences (kb (fst sp))) \<subseteq> set (kb (fst sp)) \<union> set new"
      "snd sp' = (snd sp \<or> new \<noteq> [])"
    using kb_add_infered [of "infered_sentences (kb (fst sp))" sp] unfolding sp'_def by blast
  have "d \<in> set (kb (fst sp'))" using d_in new by auto
  moreover have "d \<notin> set (kb (fst sp)) \<longrightarrow> snd sp'" using d_in new by auto
  ultimately show "\<exists>sp'. inference_pass c st = Inr sp' \<and> d \<in> set (kb (fst sp')) \<and> (d \<notin> set (kb (fst sp)) \<longrightarrow> snd sp')"
    using pass by blast
next
  show "\<exists>st'. closure (7, 7) subset_example = Some (Inr st') \<and>
       kb st' = [\<lparr>cells = {(0, 1), (0, 2), (0, 3)}, count = 1\<rparr>,
                 \<lparr>cells = {(0, 1), (0, 2), (0, 3), (0, 4), (0, 5)}, count = 2\<rparr>,
                 \<lparr>cells = {(0, 4), (0, 5)}, count = 1\<rparr>]"
    by (rule subset_example_derives)
qed

lemma subset_example_mark_pass:
  "mark_pass (7, 7) (knowledge subset_example) (subset_example, False) = Inr (subset_example, False)"
  by (simp add: subset_example_def MinesweeperAI_def pass_step_def discard_cell_def remove_empty_def
      mark_known_mines_def mark_known_safes_def known_mines_def known_safes_def)

theorem subset_inference_witness:
  "\<exists>sp'. inference_pass (7, 7) subset_example = Inr sp' \<and>
         \<lparr>cells = {(0, 4), (0, 5)}, count = 1\<rparr> \<in> set (kb (fst sp')) \<and> snd sp'"
proof -
  have kbx: "kb subset_example = [\<lparr>cells = {(0, 1), (0, 2), (0, 3)}, count = 1\<rparr>,
                \<lparr>cells = {(0, 1), (0, 2), (0, 3), (0, 4), (0, 5)}, count = 2\<rparr>]"
    by (simp add: subset_example_def kb_def MinesweeperAI_def)
  have diff: "{(0, 1), (0, 2), (0, 3), (0, 4), (0, 5)} - {(0, 1), (0, 2), (0::int, 3::int)} = {(0, 4), (0, 5)}"
    by auto
  have ne: "{(0, 1), (0, 2), (0::int, 3::int)} \<noteq> {(0, 1), (0, 2), (0, 3), (0, 4), (0, 5)}"
  proof
    assume "{(0, 1), (0, 2), (0::int, 3::int)} = {(0, 1), (0, 2), (0, 3), (0, 4), (0, 5)}"
    then have "card {(0, 1), (0, 2), (0::int, 3::int)} = card {(0, 1), (0, 2), (0, 3), (0, 4), (0::int, 5::int)}"
      by simp
    then show False by simp
  qed
  have hyp: "mark_pass (7, 7) (knowledge subset_example) (subset_example, False) = Inr (subset_example, False) \<and>
       0 < length (kb (fst (subset_example, False))) \<and> 1 < length (kb (fst (subset_example, False))) \<and> (0::nat) \<noteq> 1 \<and>
       cells (kb (fst (subset_example, False)) ! 0) \<subset> cells (kb (fst (subset_example, False)) ! 1)"
    using subset_example_mark_pass ne by (auto simp: kbx)
  have ne2: "{(0, 4), (0::int, 5::int)} \<noteq> {(0, 1), (0, 2), (0, 3)}"
  proof
    assume "{(0, 4), (0::int, 5::int)} = {(0, 1), (0, 2), (0, 3)}"
    then have "card {(0, 4), (0::int, 5::int)} = card {(0, 1), (0, 2), (0::int, 3::int)}"
      by simp
    then show False by simp
  qed
  show ?thesis
    using subset_inference [of "(7, 7)" subset_example, THEN conjunct1, rule_format, of "(subset_example, False)" 0 1, OF hyp] ne2
    by (simp add: kbx diff)
qed

section \<open>Random moves: properties\<close>

lemma randint_range: "randint a b rs = Inr (x, rs') \<Longrightarrow> a \<le> x \<and> x \<le> b"
proof -
  assume r: "randint a b rs = Inr (x, rs')"
  then have ab: "a \<le> b" and x: "x = a + int (shd rs mod nat (b - a + 1))"
    by (auto simp: randint_def split: if_splits)
  have "shd rs mod nat (b - a + 1) < nat (b - a + 1)" using ab by (intro mod_less_divisor) simp
  then have "int (shd rs mod nat (b - a + 1)) < b - a + 1" using ab by linarith
  then show ?thesis using x by simp
qed

lemma random_cell_range:
  "random_cell st rs = Inr (c, rs') \<Longrightarrow>
     0 \<le> fst c \<and> fst c < height st \<and> 0 \<le> snd c \<and> snd c < width st"
  by (auto simp: random_cell_def split: sum.splits dest!: randint_range)

lemma random_attempt_range:
  "random_attempt st rs = Inr (c, rs') \<Longrightarrow>
     0 \<le> fst c \<and> fst c < height st \<and> 0 \<le> snd c \<and> snd c < width st"
  by (auto simp: random_attempt_def split: sum.splits if_splits dest!: random_cell_range)

lemma make_random_move_cell:
  assumes "make_random_move st rs = Some y"
  shows "\<forall>c. y = Inr c \<longrightarrow>
           0 \<le> fst c \<and> fst c < height st \<and> 0 \<le> snd c \<and> snd c < width st \<and>
           c \<notin> moves_made st \<and> c \<notin> mines st"
  using assms
proof (rule make_random_move.raw_induct [rotated, where P = "\<lambda>st rs y. \<forall>c. y = Inr c \<longrightarrow>
           0 \<le> fst c \<and> fst c < height st \<and> 0 \<le> snd c \<and> snd c < width st \<and>
           c \<notin> moves_made st \<and> c \<notin> mines st"])
  fix f :: "ai \<Rightarrow> nat stream \<Rightarrow> (error + cell) option" and st rs y
  assume IH: "\<And>st rs y. f st rs = Some y \<Longrightarrow> \<forall>c. y = Inr c \<longrightarrow>
           0 \<le> fst c \<and> fst c < height st \<and> 0 \<le> snd c \<and> snd c < width st \<and>
           c \<notin> moves_made st \<and> c \<notin> mines st"
    and body: "(case random_attempt st rs of
        Inl e \<Rightarrow> Some (Inl e)
      | Inr (c, rs') \<Rightarrow>
          if c \<notin> moves_made st \<and> c \<notin> mines st then Some (Inr c) else f st rs') = Some y"
  show "\<forall>c. y = Inr c \<longrightarrow>
           0 \<le> fst c \<and> fst c < height st \<and> 0 \<le> snd c \<and> snd c < width st \<and>
           c \<notin> moves_made st \<and> c \<notin> mines st"
  proof (cases "random_attempt st rs")
    case (Inl e)
    then show ?thesis using body by auto
  next
    case (Inr p)
    obtain c rs' where p: "p = (c, rs')" by (cases p)
    show ?thesis
    proof (cases "c \<notin> moves_made st \<and> c \<notin> mines st")
      case True
      then have "y = Inr c" using body Inr p by simp
      then show ?thesis using True random_attempt_range [of st rs c rs'] Inr p by simp
    next
      case False
      then have "f st rs' = Some y" using body Inr p by auto
      then show ?thesis by (rule IH)
    qed
  qed
qed

text \<open>
  C10.  A cell returned by \<open>make_random_move\<close> lies inside the board and is neither
  in \<open>moves_made\<close> nor in \<open>mines\<close>, whatever the random draws are.
\<close>

theorem make_random_move_returns:
  "make_random_move st rs = Some (Inr (i, j)) \<Longrightarrow>
     0 \<le> i \<and> i < height st \<and> 0 \<le> j \<and> j < width st \<and>
     (i, j) \<notin> moves_made st \<and> (i, j) \<notin> mines st"
  using make_random_move_cell [of st rs "Inr (i, j)"] by simp

theorem make_random_move_returns_witness:
  "make_random_move ((MinesweeperAI 8 8)\<lparr>moves_made := {(0, 0)}\<rparr>) (0 ## 0 ## 3 ## 12 ## sconst 0) = Some (Inr (3, 4)) \<and>
   (0::int) \<le> 3 \<and> (3::int) < height ((MinesweeperAI 8 8)\<lparr>moves_made := {(0, 0)}\<rparr>) \<and>
   (0::int) \<le> 4 \<and> (4::int) < width ((MinesweeperAI 8 8)\<lparr>moves_made := {(0, 0)}\<rparr>) \<and>
   (3, 4) \<notin> moves_made ((MinesweeperAI 8 8)\<lparr>moves_made := {(0, 0)}\<rparr>) \<and>
   (3, 4) \<notin> mines ((MinesweeperAI 8 8)\<lparr>moves_made := {(0, 0)}\<rparr>)"
proof -
  have run: "make_random_move ((MinesweeperAI 8 8)\<lparr>moves_made := {(0, 0)}\<rparr>) (0 ## 0 ## 3 ## 12 ## sconst 0) = Some (Inr (3, 4))"
    by (subst make_random_move.simps)
       (simp add: random_attempt_def random_cell_def randint_def MinesweeperAI_def)
  show ?thesis
    using make_random_move_returns [OF run] run by simp
qed

lemma random_cell_total:
  "0 < height st \<Longrightarrow> 0 < width st \<Longrightarrow> \<exists>c rs'. random_cell st rs = Inr (c, rs')"
  by (simp add: random_cell_def randint_def)

lemma random_attempt_total:
  assumes "0 < height st" "0 < width st"
  shows "\<exists>c rs'. random_attempt st rs = Inr (c, rs')"
proof -
  obtain c rs1 where c: "random_cell st rs = Inr (c, rs1)"
    using random_cell_total [OF assms] by blast
  obtain c' rs2 where c': "random_cell st rs1 = Inr (c', rs2)"
    using random_cell_total [OF assms] by blast
  show ?thesis using c c' by (simp add: random_attempt_def)
qed

lemma make_random_move_no_cell:
  assumes full: "\<And>c. 0 \<le> fst c \<Longrightarrow> fst c < height st \<Longrightarrow> 0 \<le> snd c \<Longrightarrow> snd c < width st \<Longrightarrow>
                     c \<in> moves_made st \<or> c \<in> mines st"
    and pos: "0 < height st" "0 < width st"
  shows "make_random_move st rs = None"
proof (rule ccontr)
  assume "make_random_move st rs \<noteq> None"
  then obtain y where y: "make_random_move st rs = Some y" by auto
  have "st = st \<longrightarrow> False"
    using y
  proof (rule make_random_move.raw_induct [rotated, where P = "\<lambda>st' rs y. st' = st \<longrightarrow> False"])
    fix f :: "ai \<Rightarrow> nat stream \<Rightarrow> (error + cell) option" and st' rs y
    assume IH: "\<And>st' rs y. f st' rs = Some y \<Longrightarrow> st' = st \<longrightarrow> False"
      and body: "(case random_attempt st' rs of
          Inl e \<Rightarrow> Some (Inl e)
        | Inr (c, rs') \<Rightarrow>
            if c \<notin> moves_made st' \<and> c \<notin> mines st' then Some (Inr c) else f st' rs') = Some y"
    show "st' = st \<longrightarrow> False"
    proof
      assume eq: "st' = st"
      obtain c rs' where att: "random_attempt st rs = Inr (c, rs')"
        using random_attempt_total [OF pos] by blast
      have "c \<in> moves_made st \<or> c \<in> mines st"
        using random_attempt_range [OF att] full by blast
      then have "f st rs' = Some y" using body att eq by auto
      then show False using IH by blast
    qed
  qed
  then show False by simp
qed


lemma full_board_state:
  "add_knowledge (0, 0) 0 (MinesweeperAI 1 1) =
     Some (Inr ((MinesweeperAI 1 1)\<lparr>moves_made := {(0, 0)}, safes := {(0, 0)}\<rparr>))"
proof -
  have "add_new_sentence (0, 0) 0 (MinesweeperAI 1 1) = (MinesweeperAI 1 1)\<lparr>moves_made := {(0, 0)}, safes := {(0, 0)}\<rparr>"
    by (simp add: add_new_sentence_def neighbours_def candidates_explicit neighbour_step_def
        mark_safe_def MinesweeperAI_def)
  moreover have "closure (0, 0) ((MinesweeperAI 1 1)\<lparr>moves_made := {(0, 0)}, safes := {(0, 0)}\<rparr>) =
      Some (Inr ((MinesweeperAI 1 1)\<lparr>moves_made := {(0, 0)}, safes := {(0, 0)}\<rparr>))"
    by (subst closure.simps) (simp add: inference_pass_def MinesweeperAI_def kb_def)
  ultimately show ?thesis by (simp add: add_knowledge_def)
qed

text \<open>
  C3.  On a board of one cell, after \<open>add_knowledge((0, 0), 0)\<close> every cell of the
  board is in \<open>moves_made\<close>.  In that state \<open>make_random_move\<close> does not return,
  whatever the random draws are: every pass of the loop draws a cell that has been
  played and starts over.
\<close>

theorem make_random_move_full_board:
  "\<exists>st. add_knowledge (0, 0) 0 (MinesweeperAI 1 1) = Some (Inr st) \<and>
        moves_made st = {(0, 0)} \<and> height st = 1 \<and> width st = 1 \<and>
        (\<forall>rs. make_random_move st rs = None)"
proof -
  define st where "st = (MinesweeperAI 1 1)\<lparr>moves_made := {(0, 0)}, safes := {(0, 0)}\<rparr>"
  have fields: "moves_made st = {(0, 0)}" "height st = 1" "width st = 1"
    by (simp_all add: st_def MinesweeperAI_def)
  have "make_random_move st rs = None" for rs
  proof (rule make_random_move_no_cell)
    fix c :: cell
    assume "0 \<le> fst c" "fst c < height st" "0 \<le> snd c" "snd c < width st"
    then have "c = (0, 0)" using fields by (auto simp: prod_eq_iff)
    then show "c \<in> moves_made st \<or> c \<in> mines st" using fields by simp
  qed (simp_all add: fields)
  then show ?thesis using full_board_state fields unfolding st_def by blast
qed

section \<open>Engines fed with true observations\<close>

definition around :: "int \<Rightarrow> int \<Rightarrow> cell \<Rightarrow> cell set" where
  "around h w c = {mn. mn \<noteq> c \<and> fst c - 1 \<le> fst mn \<and> fst mn \<le> fst c + 1 \<and>
        snd c - 1 \<le> snd mn \<and> snd mn \<le> snd c + 1 \<and>
        0 \<le> fst mn \<and> fst mn < h \<and> 0 \<le> snd mn \<and> snd mn < w}"

lemma around_subset: "around h w c \<subseteq> set (candidates c)"
  by (auto simp: around_def set_candidates)

lemma finite_around: "finite (around h w c)"
  using around_subset by (rule finite_subset) simp

lemma fold_nearby_step:
  "distinct xs \<Longrightarrow> set xs \<subseteq> set (candidates c) \<Longrightarrow>
   fold (nearby_step g c) xs k =
     k + int (card {x \<in> set xs. x \<in> around (board_height g) (board_width g) c \<and> x \<in> mine_cells g})"
proof (induction xs arbitrary: k)
  case Nil
  then show ?case by simp
next
  case (Cons x xs)
  let ?S = "\<lambda>ys. {y \<in> set ys. y \<in> around (board_height g) (board_width g) c \<and> y \<in> mine_cells g}"
  have fin: "finite (?S xs)" by simp
  have x_notin: "x \<notin> ?S xs" using Cons.prems by simp
  show ?case
  proof (cases "x \<in> around (board_height g) (board_width g) c \<and> x \<in> mine_cells g")
    case True
    then have step: "nearby_step g c x k = k + 1"
      by (auto simp: nearby_step_def around_def mine_cells_def)
    have "?S (x # xs) = insert x (?S xs)" using True by auto
    then have "card (?S (x # xs)) = Suc (card (?S xs))" using fin x_notin by simp
    then show ?thesis using Cons step by simp
  next
    case False
    then have step: "nearby_step g c x k = k"
      using Cons.prems by (auto simp: nearby_step_def around_def mine_cells_def set_candidates)
    have "?S (x # xs) = ?S xs" using False by auto
    then show ?thesis using Cons step by simp
  qed
qed

lemma nearby_mines_card:
  "nearby_mines g c = int (card (around (board_height g) (board_width g) c \<inter> mine_cells g))"
proof -
  have "{x \<in> set (candidates c). x \<in> around (board_height g) (board_width g) c \<and> x \<in> mine_cells g} =
        around (board_height g) (board_width g) c \<inter> mine_cells g"
    using around_subset [of "board_height g" "board_width g" c] by auto
  then show ?thesis by (simp add: nearby_mines_def fold_nearby_step [OF distinct_candidates])
qed


definition true_sentence :: "cell set \<Rightarrow> sentence \<Rightarrow> bool" where
  "true_sentence M s \<longleftrightarrow> finite (cells s) \<and> count s = int (card (cells s \<inter> M))"

definition consistent :: "cell set \<Rightarrow> ai \<Rightarrow> bool" where
  "consistent M st \<longleftrightarrow>
     mines st \<subseteq> M \<and> safes st \<inter> M = {} \<and> distinct (knowledge st) \<and>
     (\<forall>a \<in> set (knowledge st).
        true_sentence M (heap st a) \<and> cells (heap st a) \<inter> (mines st \<union> safes st) = {})"

lemma true_sentence_mark_mine:
  assumes "c \<in> M" "true_sentence M s"
  shows "true_sentence M (sentence_mark_mine c s)"
proof (cases "c \<in> cells s")
  case True
  have fin: "finite (cells s \<inter> M)" using assms by (simp add: true_sentence_def)
  have "(cells s - {c}) \<inter> M = (cells s \<inter> M) - {c}" by auto
  moreover have "c \<in> cells s \<inter> M" using True assms by simp
  ultimately have "card ((cells s - {c}) \<inter> M) = card (cells s \<inter> M) - 1" by simp
  moreover have "card (cells s \<inter> M) \<ge> 1"
    using fin \<open>c \<in> cells s \<inter> M\<close> by (metis One_nat_def Suc_leI card_gt_0_iff empty_iff)
  ultimately show ?thesis using assms True
    by (simp add: true_sentence_def sentence_mark_mine_def)
next
  case False
  then show ?thesis using assms by (simp add: sentence_mark_mine_def)
qed

lemma true_sentence_mark_safe:
  assumes "c \<notin> M" "true_sentence M s"
  shows "true_sentence M (sentence_mark_safe c s)"
proof -
  have "(cells s - {c}) \<inter> M = cells s \<inter> M" using assms by auto
  then show ?thesis using assms by (simp add: true_sentence_def sentence_mark_safe_def)
qed

lemma cells_mark_mine [simp]: "cells (sentence_mark_mine c s) = cells s - {c}"
  by (simp add: sentence_mark_mine_def)

lemma cells_mark_safe [simp]: "cells (sentence_mark_safe c s) = cells s - {c}"
  by (simp add: sentence_mark_safe_def)

lemma consistent_mark_mine:
  assumes "c \<in> M" "consistent M st"
  shows "consistent M (mark_mine c st)"
  using assms
  by (auto simp: consistent_def heap_mark_mine true_sentence_mark_mine)

lemma consistent_mark_safe:
  assumes "c \<notin> M" "consistent M st"
  shows "consistent M (mark_safe c st)"
  using assms
  by (auto simp: consistent_def heap_mark_safe true_sentence_mark_safe)

lemma consistent_fold_mark_mine:
  "set xs \<subseteq> M \<Longrightarrow> consistent M st \<Longrightarrow> consistent M (fold mark_mine xs st)"
  by (induction xs arbitrary: st) (simp_all add: consistent_mark_mine)

lemma consistent_fold_mark_safe:
  "set xs \<inter> M = {} \<Longrightarrow> consistent M st \<Longrightarrow> consistent M (fold mark_safe xs st)"
  by (induction xs arbitrary: st) (simp_all add: consistent_mark_safe)

lemma known_mines_true:
  assumes "true_sentence M s"
  shows "known_mines s \<subseteq> M"
proof (cases "count s = int (card (cells s))")
  case True
  then have "card (cells s \<inter> M) = card (cells s)" using assms by (simp add: true_sentence_def)
  moreover have "finite (cells s)" using assms by (simp add: true_sentence_def)
  ultimately have "cells s \<inter> M = cells s" by (intro card_subset_eq) auto
  then show ?thesis using True by (auto simp: known_mines_def)
next
  case False
  then show ?thesis by (simp add: known_mines_def)
qed

lemma known_safes_true:
  assumes "true_sentence M s"
  shows "known_safes s \<inter> M = {}"
proof (cases "count s = 0")
  case True
  then have "card (cells s \<inter> M) = 0" using assms by (simp add: true_sentence_def)
  moreover have "finite (cells s \<inter> M)" using assms by (simp add: true_sentence_def)
  ultimately show ?thesis using True by (simp add: known_safes_def)
next
  case False
  then show ?thesis by (simp add: known_safes_def)
qed

lemma finite_known:
  "true_sentence M s \<Longrightarrow> finite (known_mines s)"
  "true_sentence M s \<Longrightarrow> finite (known_safes s)"
  by (simp_all add: true_sentence_def known_mines_def known_safes_def)

lemma heap_append_sentence:
  "heap (append_sentence s st) a = (if a = new_address (knowledge st) then s else heap st a)"
  by (simp add: append_sentence_def)

lemma consistent_append_sentence:
  assumes "consistent M st" "true_sentence M s" "cells s \<inter> (mines st \<union> safes st) = {}"
  shows "consistent M (append_sentence s st)"
proof -
  have fresh: "new_address (knowledge st) \<notin> set (knowledge st)" by (rule new_address_fresh)
  have kn: "knowledge (append_sentence s st) = knowledge st @ [new_address (knowledge st)]"
    by (simp add: append_sentence_def)
  show ?thesis
    unfolding consistent_def
  proof (intro conjI ballI)
    show "mines (append_sentence s st) \<subseteq> M" using assms by (simp add: consistent_def)
    show "safes (append_sentence s st) \<inter> M = {}" using assms by (simp add: consistent_def)
    show "distinct (knowledge (append_sentence s st))" using assms fresh by (simp add: kn consistent_def)
  next
    fix a assume "a \<in> set (knowledge (append_sentence s st))"
    then consider "a = new_address (knowledge st)" | "a \<in> set (knowledge st)" "a \<noteq> new_address (knowledge st)"
      using fresh by (auto simp: kn)
    then show "true_sentence M (heap (append_sentence s st) a)"
      using assms by cases (auto simp: heap_append_sentence consistent_def)
  next
    fix a assume "a \<in> set (knowledge (append_sentence s st))"
    then consider "a = new_address (knowledge st)" | "a \<in> set (knowledge st)" "a \<noteq> new_address (knowledge st)"
      using fresh by (auto simp: kn)
    then show "cells (heap (append_sentence s st) a) \<inter> (mines (append_sentence s st) \<union> safes (append_sentence s st)) = {}"
      using assms by cases (auto simp: heap_append_sentence consistent_def)
  qed
qed


lemma true_sentence_diff:
  assumes "true_sentence M s" "true_sentence M f" "cells f \<subseteq> cells s"
  shows "true_sentence M \<lparr>cells = cells s - cells f, count = count s - count f\<rparr>"
proof -
  have fin: "finite (cells s \<inter> M)" "finite (cells f \<inter> M)"
    using assms by (simp_all add: true_sentence_def)
  have sub: "cells f \<inter> M \<subseteq> cells s \<inter> M" using assms by auto
  have "(cells s - cells f) \<inter> M = (cells s \<inter> M) - (cells f \<inter> M)" by auto
  then have "card ((cells s - cells f) \<inter> M) = card (cells s \<inter> M) - card (cells f \<inter> M)"
    using fin sub by (simp add: card_Diff_subset)
  moreover have "card (cells f \<inter> M) \<le> card (cells s \<inter> M)"
    using fin sub by (simp add: card_mono)
  ultimately have "int (card ((cells s - cells f) \<inter> M)) = count s - count f"
    using assms by (simp add: true_sentence_def)
  then show ?thesis using assms by (simp add: true_sentence_def)
qed

lemma infer_pair_true:
  assumes "true_sentence M s" "true_sentence M f" "d \<in> set (infer_pair s f)"
  shows "true_sentence M d \<and> cells d \<noteq> {} \<and> (cells d \<subseteq> cells s \<or> cells d \<subseteq> cells f)"
proof -
  from assms(3) consider
      "cells f \<subset> cells s" "cells s - cells f \<noteq> {}" "d = \<lparr>cells = cells s - cells f, count = count s - count f\<rparr>"
    | "cells s \<subset> cells f" "cells f - cells s \<noteq> {}" "d = \<lparr>cells = cells f - cells s, count = count f - count s\<rparr>"
    by (auto simp: infer_pair_def split: if_splits)
  then show ?thesis
  proof cases
    case 1
    then show ?thesis using true_sentence_diff [OF assms(1,2)] by auto
  next
    case 2
    then show ?thesis using true_sentence_diff [OF assms(2,1)] by auto
  qed
qed

lemma infered_sentences_true:
  assumes "\<forall>s \<in> set K. true_sentence M s" "d \<in> set (infered_sentences K)"
  shows "true_sentence M d \<and> cells d \<noteq> {} \<and> (\<exists>s \<in> set K. cells d \<subseteq> cells s)"
  using assms
proof (induction K)
  case Nil
  then show ?case by simp
next
  case (Cons s rest)
  from Cons.prems(2) consider f where "f \<in> set rest" "d \<in> set (infer_pair s f)"
    | "d \<in> set (infered_sentences rest)"
    by auto
  then show ?case
  proof cases
    case 1
    then show ?thesis using infer_pair_true [of M s f d] Cons.prems(1) by auto
  next
    case 2
    then show ?thesis using Cons.IH Cons.prems(1) by auto
  qed
qed

lemma add_infered_fields [simp]:
  "height (fst (add_infered ss sp)) = height (fst sp)"
  "width (fst (add_infered ss sp)) = width (fst sp)"
  "moves_made (fst (add_infered ss sp)) = moves_made (fst sp)"
  "mines (fst (add_infered ss sp)) = mines (fst sp)"
  "safes (fst (add_infered ss sp)) = safes (fst sp)"
  by (induction ss arbitrary: sp; simp add: add_if_new_def)+

lemma consistent_add_infered:
  assumes "consistent M (fst sp)"
    and "\<forall>d \<in> set ss. true_sentence M d \<and> cells d \<inter> (mines (fst sp) \<union> safes (fst sp)) = {}"
  shows "consistent M (fst (add_infered ss sp))"
  using assms
proof (induction ss arbitrary: sp)
  case Nil
  then show ?case by simp
next
  case (Cons s ss)
  show ?case
  proof (cases "s \<in> set (kb (fst sp))")
    case True
    then have "add_infered (s # ss) sp = add_infered ss (fst sp, snd sp)"
      by (simp add: add_if_new_def)
    then show ?thesis using Cons.IH [of "(fst sp, snd sp)"] Cons.prems by simp
  next
    case False
    then have step: "add_infered (s # ss) sp = add_infered ss (append_sentence s (fst sp), True)"
      by (simp add: add_if_new_def)
    have "consistent M (append_sentence s (fst sp))"
      using Cons.prems by (intro consistent_append_sentence) auto
    then show ?thesis using Cons.IH [of "(append_sentence s (fst sp), True)"] Cons.prems step by simp
  qed
qed


definition cells_of :: "ai \<Rightarrow> cell set" where
  "cells_of st = (\<Union>s \<in> set (kb st). cells s)"

definition live :: "ai \<Rightarrow> sentence set" where
  "live st = {s \<in> set (kb st). cells s \<noteq> {}}"

lemma consistent_kb:
  "consistent M st \<Longrightarrow> s \<in> set (kb st) \<Longrightarrow>
     true_sentence M s \<and> cells s \<inter> (mines st \<union> safes st) = {}"
  by (auto simp: consistent_def kb_def)

lemma finite_cells_of: "consistent M st \<Longrightarrow> finite (cells_of st)"
  unfolding cells_of_def using consistent_kb [of M st] by (auto simp: true_sentence_def)

lemma finite_live: "finite (live st)"
  by (simp add: live_def)

lemma live_bound:
  assumes "consistent M st"
  shows "card (live st) \<le> 2 ^ card (cells_of st)"
proof -
  have "live st \<subseteq> (\<lambda>S. \<lparr>cells = S, count = int (card (S \<inter> M))\<rparr>) ` Pow (cells_of st)"
  proof
    fix s assume "s \<in> live st"
    then have s: "s \<in> set (kb st)" by (simp add: live_def)
    then have "true_sentence M s" using assms consistent_kb by blast
    then have "s = \<lparr>cells = cells s, count = int (card (cells s \<inter> M))\<rparr>"
      by (simp add: true_sentence_def)
    moreover have "cells s \<in> Pow (cells_of st)" using s by (auto simp: cells_of_def)
    ultimately show "s \<in> (\<lambda>S. \<lparr>cells = S, count = int (card (S \<inter> M))\<rparr>) ` Pow (cells_of st)"
      by (rule image_eqI)
  qed
  moreover have fin: "finite (Pow (cells_of st))" using finite_cells_of [OF assms] by simp
  ultimately have "card (live st) \<le> card ((\<lambda>S. \<lparr>cells = S, count = int (card (S \<inter> M))\<rparr>) ` Pow (cells_of st))"
    by (intro card_mono) auto
  also have "\<dots> \<le> card (Pow (cells_of st))" using fin by (rule card_image_le)
  also have "\<dots> = 2 ^ card (cells_of st)" using finite_cells_of [OF assms] by (simp add: card_Pow)
  finally show ?thesis .
qed

lemma cells_of_mark_mine: "cells_of (mark_mine c st) = cells_of st - {c}"
  by (auto simp: cells_of_def kb_mark_mine)

lemma cells_of_mark_safe: "cells_of (mark_safe c st) = cells_of st - {c}"
  by (auto simp: cells_of_def kb_mark_safe)

lemma fold_mark_mine_fields [simp]:
  "knowledge (fold mark_mine xs st) = knowledge st"
  "safes (fold mark_mine xs st) = safes st"
  "height (fold mark_mine xs st) = height st"
  "width (fold mark_mine xs st) = width st"
  "moves_made (fold mark_mine xs st) = moves_made st"
  by (induction xs arbitrary: st; simp)+

lemma fold_mark_safe_fields [simp]:
  "knowledge (fold mark_safe xs st) = knowledge st"
  "mines (fold mark_safe xs st) = mines st"
  "height (fold mark_safe xs st) = height st"
  "width (fold mark_safe xs st) = width st"
  "moves_made (fold mark_safe xs st) = moves_made st"
  by (induction xs arbitrary: st; simp)+

lemma safes_fold_mark_safe: "safes (fold mark_safe xs st) = safes st \<union> set xs"
  by (induction xs arbitrary: st) auto

lemma mines_fold_mark_mine: "mines (fold mark_mine xs st) = mines st \<union> set xs"
  by (induction xs arbitrary: st) auto

lemma cells_of_fold_mark_mine: "cells_of (fold mark_mine xs st) = cells_of st - set xs"
  by (induction xs arbitrary: st) (auto simp: cells_of_mark_mine)

lemma cells_of_fold_mark_safe: "cells_of (fold mark_safe xs st) = cells_of st - set xs"
  by (induction xs arbitrary: st) (auto simp: cells_of_mark_safe)

lemma heap_fold_mark_mine_other:
  "a \<notin> set (knowledge st) \<Longrightarrow> heap (fold mark_mine xs st) a = heap st a"
  by (induction xs arbitrary: st) (simp_all add: heap_mark_mine)

lemma heap_fold_mark_safe_other:
  "a \<notin> set (knowledge st) \<Longrightarrow> heap (fold mark_safe xs st) a = heap st a"
  by (induction xs arbitrary: st) (simp_all add: heap_mark_safe)

text \<open>
  The loops over \<open>known_mines\<close> and \<open>known_safes\<close> visit each cell of the set once.
  Whatever the order of the visit, the engine ends in the same state, so the sorted
  order that the model takes stands for any order Python may take.
\<close>

lemma heap_fold_mark_mine:
  "distinct xs \<Longrightarrow>
   heap (fold mark_mine xs st) a =
     (if a \<in> set (knowledge st)
      then \<lparr>cells = cells (heap st a) - set xs,
            count = count (heap st a) - int (card (cells (heap st a) \<inter> set xs))\<rparr>
      else heap st a)"
proof (induction xs arbitrary: st)
  case Nil
  then show ?case by simp
next
  case (Cons x xs)
  have x: "x \<notin> set xs" and d: "distinct xs" using Cons.prems by simp_all
  show ?case
  proof (cases "a \<in> set (knowledge st)")
    case False
    then show ?thesis using Cons.IH [OF d, of "mark_mine x st"] by (simp add: heap_mark_mine)
  next
    case True
    let ?s = "heap st a"
    have fin: "finite (cells ?s \<inter> set xs)" by simp
    show ?thesis
    proof (cases "x \<in> cells ?s")
      case in_cells: True
      have "cells ?s \<inter> set (x # xs) = insert x (cells ?s \<inter> set xs)" using in_cells by auto
      then have "card (cells ?s \<inter> set (x # xs)) = Suc (card (cells ?s \<inter> set xs))"
        using x fin by simp
      moreover have "(cells ?s - {x}) \<inter> set xs = cells ?s \<inter> set xs" using x by auto
      moreover have "cells ?s - {x} - set xs = cells ?s - set (x # xs)" by auto
      ultimately show ?thesis
        using True in_cells Cons.IH [OF d, of "mark_mine x st"]
        by (simp add: heap_mark_mine sentence_mark_mine_def)
    next
      case not_in: False
      have "cells ?s \<inter> set (x # xs) = cells ?s \<inter> set xs" using not_in by auto
      moreover have "cells ?s - set xs = cells ?s - set (x # xs)" using not_in by auto
      ultimately show ?thesis
        using True not_in Cons.IH [OF d, of "mark_mine x st"]
        by (simp add: heap_mark_mine sentence_mark_mine_def)
    qed
  qed
qed

lemma heap_fold_mark_safe:
  "heap (fold mark_safe xs st) a =
     (if a \<in> set (knowledge st)
      then \<lparr>cells = cells (heap st a) - set xs, count = count (heap st a)\<rparr>
      else heap st a)"
proof (induction xs arbitrary: st)
  case Nil
  then show ?case by simp
next
  case (Cons x xs)
  have "cells (heap st a) - {x} - set xs = cells (heap st a) - set (x # xs)" by auto
  then show ?case using Cons.IH [of "mark_safe x st"]
    by (simp add: heap_mark_safe sentence_mark_safe_def)
qed

lemma mark_order_irrelevant:
  assumes "distinct xs" "distinct ys" "set xs = set ys"
  shows "fold mark_mine xs st = fold mark_mine ys st"
    and "fold mark_safe xs st = fold mark_safe ys st"
proof -
  have "heap (fold mark_mine xs st) = heap (fold mark_mine ys st)"
    using assms by (auto simp: heap_fold_mark_mine)
  then show "fold mark_mine xs st = fold mark_mine ys st"
    using assms(3) by (intro ai.equality) (simp_all add: mines_fold_mark_mine)
  have "heap (fold mark_safe xs st) = heap (fold mark_safe ys st)"
    using assms by (auto simp: heap_fold_mark_safe)
  then show "fold mark_safe xs st = fold mark_safe ys st"
    using assms(3) by (intro ai.equality) (simp_all add: safes_fold_mark_safe)
qed

lemma list_remove_first:
  "\<exists>x \<in> set xs. h x = s \<Longrightarrow>
     \<exists>b \<in> set xs. h b = s \<and> list_remove h s (xs @ ys) = Inr (remove1 b xs @ ys)"
proof (induction xs)
  case Nil
  then show ?case by simp
next
  case (Cons x xs)
  show ?case
  proof (cases "h x = s")
    case True
    then show ?thesis by (intro bexI [of _ x]) simp_all
  next
    case False
    then obtain b where b: "b \<in> set xs" "h b = s" "list_remove h s (xs @ ys) = Inr (remove1 b xs @ ys)"
      using Cons by auto
    then have "b \<noteq> x" using False by auto
    then show ?thesis using b False by (intro bexI [of _ b]) simp_all
  qed
qed


definition progress :: "ai \<times> bool \<Rightarrow> ai \<times> bool \<Rightarrow> bool" where
  "progress sp sp' \<longleftrightarrow>
     cells_of (fst sp') \<subseteq> cells_of (fst sp) \<and>
     (snd sp \<longrightarrow> snd sp') \<and>
     (snd sp' \<and> \<not> snd sp \<longrightarrow> cells_of (fst sp') \<noteq> cells_of (fst sp)) \<and>
     (\<not> snd sp' \<longrightarrow> cells_of (fst sp') = cells_of (fst sp) \<and> live (fst sp') = live (fst sp))"

lemma progress_refl: "progress sp sp"
  by (simp add: progress_def)

lemma progress_trans: "progress a b \<Longrightarrow> progress b c \<Longrightarrow> progress a c"
  unfolding progress_def by (cases "snd b") auto

lemma cells_of_alt: "cells_of st = (\<Union>a \<in> set (knowledge st). cells (heap st a))"
  by (simp add: cells_of_def kb_def)

lemma live_alt: "live st = {s \<in> heap st ` set (knowledge st). cells s \<noteq> {}}"
  by (simp add: live_def kb_def)

lemma remove_empty_ok:
  assumes con: "consistent M st" and kn: "knowledge st = pre @ a # rest"
  shows "\<exists>st' pre'. remove_empty a st = Inr st' \<and> consistent M st' \<and>
           knowledge st' = pre' @ rest \<and> safes st' = safes st \<and>
           cells_of st' = cells_of st \<and> live st' = live st \<and>
           (a \<in> set (knowledge st') \<or> cells (heap st' a) = {})"
proof (cases "cells (heap st a) = {}")
  case False
  then have "remove_empty a st = Inr st" by (simp add: remove_empty_def)
  then show ?thesis using con kn by auto
next
  case True
  have "\<exists>x \<in> set (pre @ [a]). heap st x = heap st a" by simp
  from list_remove_first [OF this, of rest]
  obtain b where b: "b \<in> set (pre @ [a])" "heap st b = heap st a"
    "list_remove (heap st) (heap st a) ((pre @ [a]) @ rest) = Inr (remove1 b (pre @ [a]) @ rest)"
    by blast
  define st' where "st' = st\<lparr>knowledge := remove1 b (pre @ [a]) @ rest\<rparr>"
  have res: "remove_empty a st = Inr st'"
    using True b(3) kn by (simp add: remove_empty_def st'_def)
  have "remove1 b ((pre @ [a]) @ rest) = remove1 b (pre @ [a]) @ rest"
    using b(1) by (metis remove1_append)
  then have kn': "knowledge st' = remove1 b (knowledge st)"
    using kn by (simp add: st'_def)
  have dist: "distinct (knowledge st)" using con by (simp add: consistent_def)
  have set': "set (knowledge st') = set (knowledge st) - {b}"
    using dist by (simp add: kn')
  have heap': "heap st' = heap st" "mines st' = mines st" "safes st' = safes st"
    by (simp_all add: st'_def)
  have b_empty: "cells (heap st b) = {}" using b(2) True by simp
  have "consistent M st'"
    using con dist unfolding consistent_def heap' set' by (auto simp: kn')
  moreover have "knowledge st' = remove1 b (pre @ [a]) @ rest" by (simp add: st'_def)
  moreover have "cells_of st' = cells_of st"
    unfolding cells_of_alt heap' set' using b_empty by auto
  moreover have "live st' = live st"
    unfolding live_alt heap' set' using b_empty by auto
  moreover have "cells (heap st' a) = {}" using True by (simp add: heap')
  ultimately show ?thesis using res heap' by blast
qed

lemma mark_known_mines_ok:
  assumes con: "consistent M st" and a: "a \<in> set (knowledge st) \<or> cells (heap st a) = {}"
  shows "consistent M (fst (mark_known_mines a (st, p))) \<and>
         knowledge (fst (mark_known_mines a (st, p))) = knowledge st \<and>
         safes (fst (mark_known_mines a (st, p))) = safes st \<and>
         progress (st, p) (mark_known_mines a (st, p)) \<and>
         (a \<in> set (knowledge st) \<or> cells (heap (fst (mark_known_mines a (st, p))) a) = {})"
proof (cases "known_mines (heap st a) = {}")
  case True
  then have "mark_known_mines a (st, p) = (st, p)" by (simp add: mark_known_mines_def)
  then show ?thesis using con a by (simp add: progress_refl)
next
  case False
  then have ne: "cells (heap st a) \<noteq> {}" and km: "known_mines (heap st a) = cells (heap st a)"
    by (auto simp: known_mines_def split: if_splits)
  then have ain: "a \<in> set (knowledge st)" using a by simp
  then have tr: "true_sentence M (heap st a)" using con by (simp add: consistent_def)
  then have fin: "finite (cells (heap st a))" by (simp add: true_sentence_def)
  define blocks where "blocks = sorted_list_of_set (known_mines (heap st a))"
  have sb: "set blocks = cells (heap st a)" using fin km by (simp add: blocks_def)
  have bn: "blocks \<noteq> []" using sb ne by auto
  have res: "mark_known_mines a (st, p) = (fold mark_mine blocks st, True)"
    using bn by (simp add: mark_known_mines_def blocks_def [symmetric])
  have "set blocks \<subseteq> M" using known_mines_true [OF tr] km sb by simp
  then have c1: "consistent M (fold mark_mine blocks st)"
    using con by (rule consistent_fold_mark_mine)
  have sub: "cells (heap st a) \<subseteq> cells_of st" using ain by (auto simp: cells_of_alt)
  have "cells_of (fold mark_mine blocks st) = cells_of st - cells (heap st a)"
    by (simp add: cells_of_fold_mark_mine sb)
  then have "cells_of (fold mark_mine blocks st) \<subseteq> cells_of st"
    "cells_of (fold mark_mine blocks st) \<noteq> cells_of st"
    using sub ne by auto
  then have "progress (st, p) (fold mark_mine blocks st, True)"
    by (simp add: progress_def)
  then show ?thesis using res c1 ain by simp
qed

lemma mark_known_safes_ok:
  assumes con: "consistent M st" and a: "a \<in> set (knowledge st) \<or> cells (heap st a) = {}"
  shows "consistent M (fst (mark_known_safes a (st, p))) \<and>
         knowledge (fst (mark_known_safes a (st, p))) = knowledge st \<and>
         safes st \<subseteq> safes (fst (mark_known_safes a (st, p))) \<and>
         progress (st, p) (mark_known_safes a (st, p))"
proof (cases "known_safes (heap st a) = {}")
  case True
  then have "mark_known_safes a (st, p) = (st, p)" by (simp add: mark_known_safes_def)
  then show ?thesis using con a by (simp add: progress_refl)
next
  case False
  then have ne: "cells (heap st a) \<noteq> {}" and km: "known_safes (heap st a) = cells (heap st a)"
    by (auto simp: known_safes_def split: if_splits)
  then have ain: "a \<in> set (knowledge st)" using a by simp
  then have tr: "true_sentence M (heap st a)" using con by (simp add: consistent_def)
  then have fin: "finite (cells (heap st a))" by (simp add: true_sentence_def)
  define blocks where "blocks = sorted_list_of_set (known_safes (heap st a))"
  have sb: "set blocks = cells (heap st a)" using fin km by (simp add: blocks_def)
  have bn: "blocks \<noteq> []" using sb ne by auto
  have res: "mark_known_safes a (st, p) = (fold mark_safe blocks st, True)"
    using bn by (simp add: mark_known_safes_def blocks_def [symmetric])
  have "set blocks \<inter> M = {}" using known_safes_true [OF tr] km sb by simp
  then have c1: "consistent M (fold mark_safe blocks st)"
    using con by (rule consistent_fold_mark_safe)
  have sub: "cells (heap st a) \<subseteq> cells_of st" using ain by (auto simp: cells_of_alt)
  have "cells_of (fold mark_safe blocks st) = cells_of st - cells (heap st a)"
    by (simp add: cells_of_fold_mark_safe sb)
  then have "cells_of (fold mark_safe blocks st) \<subseteq> cells_of st"
    "cells_of (fold mark_safe blocks st) \<noteq> cells_of st"
    using sub ne by auto
  then have "progress (st, p) (fold mark_safe blocks st, True)"
    by (simp add: progress_def)
  then show ?thesis using res c1 by (simp add: safes_fold_mark_safe)
qed


lemma pass_step_ok:
  assumes con: "consistent M st" and kn: "knowledge st = pre @ a # rest" and c: "c \<in> safes st"
  shows "\<exists>sp' pre'. pass_step c a (st, p) = Inr sp' \<and> consistent M (fst sp') \<and>
           knowledge (fst sp') = pre' @ rest \<and> c \<in> safes (fst sp') \<and> progress (st, p) sp'"
proof -
  have ain: "a \<in> set (knowledge st)" using kn by simp
  then have "cells (heap st a) \<inter> (mines st \<union> safes st) = {}" using con by (simp add: consistent_def)
  then have "c \<notin> cells (heap st a)" using c by auto
  then have d: "discard_cell c a (st, p) = (st, p)" by (simp add: discard_cell_def)
  obtain st2 pre' where st2: "remove_empty a st = Inr st2" "consistent M st2"
      "knowledge st2 = pre' @ rest" "safes st2 = safes st"
      "cells_of st2 = cells_of st" "live st2 = live st"
      "a \<in> set (knowledge st2) \<or> cells (heap st2 a) = {}"
    using remove_empty_ok [OF con kn] by blast
  have p2: "progress (st, p) (st2, p)" using st2(5,6) by (simp add: progress_def)
  define r3 where "r3 = mark_known_mines a (st2, p)"
  have r3: "consistent M (fst r3)" "knowledge (fst r3) = knowledge st2" "safes (fst r3) = safes st2"
      "progress (st2, p) r3" "a \<in> set (knowledge st2) \<or> cells (heap (fst r3) a) = {}"
    using mark_known_mines_ok [OF st2(2) st2(7), of p] by (simp_all add: r3_def)
  define r4 where "r4 = mark_known_safes a r3"
  have a3: "a \<in> set (knowledge (fst r3)) \<or> cells (heap (fst r3) a) = {}" using r3(2,5) by simp
  have r4: "consistent M (fst r4)" "knowledge (fst r4) = knowledge (fst r3)"
      "safes (fst r3) \<subseteq> safes (fst r4)" "progress r3 r4"
    using mark_known_safes_ok [OF r3(1) a3, of "snd r3"] by (simp_all add: r4_def)
  have "pass_step c a (st, p) = Inr r4"
    by (simp add: pass_step_def d st2(1) r3_def r4_def)
  moreover have "knowledge (fst r4) = pre' @ rest" using r4(2) r3(2) st2(3) by simp
  moreover have "c \<in> safes (fst r4)" using r4(3) r3(3) st2(4) c by auto
  moreover have "progress (st, p) r4"
    using p2 r3(4) r4(4) by (blast intro: progress_trans)
  ultimately show ?thesis using r4(1) by blast
qed

lemma mark_pass_ok:
  assumes "consistent M st" "knowledge st = pre @ todo" "c \<in> safes st"
  shows "\<exists>sp'. mark_pass c todo (st, p) = Inr sp' \<and> consistent M (fst sp') \<and>
           c \<in> safes (fst sp') \<and> progress (st, p) sp'"
  using assms
proof (induction todo arbitrary: st p pre)
  case Nil
  then show ?case by (simp add: progress_refl)
next
  case (Cons a rest)
  obtain sp1 pre' where sp1: "pass_step c a (st, p) = Inr sp1" "consistent M (fst sp1)"
      "knowledge (fst sp1) = pre' @ rest" "c \<in> safes (fst sp1)" "progress (st, p) sp1"
    using pass_step_ok [OF Cons.prems] by blast
  obtain sp' where sp': "mark_pass c rest (fst sp1, snd sp1) = Inr sp'" "consistent M (fst sp')"
      "c \<in> safes (fst sp')" "progress (fst sp1, snd sp1) sp'"
    using Cons.IH [OF sp1(2,3,4)] by blast
  have "mark_pass c (a # rest) (st, p) = Inr sp'" using sp1(1) sp'(1) by simp
  moreover have "progress (st, p) sp'" using sp1(5) sp'(4) by (auto intro: progress_trans)
  ultimately show ?case using sp'(2,3) by blast
qed


lemma kb_add_infered_new:
  "\<exists>new. kb (fst (add_infered ss sp)) = kb (fst sp) @ new \<and> set new \<subseteq> set ss \<and>
         set new \<inter> set (kb (fst sp)) = {} \<and>
         snd (add_infered ss sp) = (snd sp \<or> new \<noteq> [])"
proof (induction ss arbitrary: sp)
  case Nil
  then show ?case by simp
next
  case (Cons s ss)
  show ?case
  proof (cases "s \<in> set (kb (fst sp))")
    case True
    then have step: "add_infered (s # ss) sp = add_infered ss sp"
      by (simp add: add_if_new_def)
    from Cons [of sp] obtain new where
      "kb (fst (add_infered ss sp)) = kb (fst sp) @ new" "set new \<subseteq> set ss"
      "set new \<inter> set (kb (fst sp)) = {}" "snd (add_infered ss sp) = (snd sp \<or> new \<noteq> [])"
      by blast
    then show ?thesis using step by (intro exI [of _ new]) auto
  next
    case False
    then have step: "add_infered (s # ss) sp = add_infered ss (append_sentence s (fst sp), True)"
      by (simp add: add_if_new_def)
    from Cons [of "(append_sentence s (fst sp), True)"] obtain new where
      "kb (fst (add_infered ss (append_sentence s (fst sp), True))) = kb (append_sentence s (fst sp)) @ new"
      "set new \<subseteq> set ss"
      "set new \<inter> set (kb (append_sentence s (fst sp))) = {}"
      "snd (add_infered ss (append_sentence s (fst sp), True))"
      by auto
    then show ?thesis using step False
      by (intro exI [of _ "s # new"]) (auto simp: kb_append_sentence)
  qed
qed

definition effort :: "ai \<Rightarrow> nat \<times> nat" where
  "effort st = (card (cells_of st), 2 ^ card (cells_of st) - card (live st))"

lemma inference_pass_ok:
  assumes con: "consistent M st" and c: "c \<in> safes st"
  shows "\<exists>sp2. inference_pass c st = Inr sp2 \<and> consistent M (fst sp2) \<and> c \<in> safes (fst sp2) \<and>
           (snd sp2 \<longrightarrow> (effort (fst sp2), effort st) \<in> less_than <*lex*> less_than)"
proof -
  obtain sp1 where sp1: "mark_pass c (knowledge st) (st, False) = Inr sp1" "consistent M (fst sp1)"
      "c \<in> safes (fst sp1)" "progress (st, False) sp1"
    using mark_pass_ok [OF con _ c, of "[]" "knowledge st" False] by auto
  define ss where "ss = infered_sentences (kb (fst sp1))"
  define sp2 where "sp2 = add_infered ss sp1"
  have pass: "inference_pass c st = Inr sp2"
    by (simp add: inference_pass_def sp1(1) sp2_def ss_def)
  have kb1: "\<forall>s \<in> set (kb (fst sp1)). true_sentence M s"
    using consistent_kb [OF sp1(2)] by blast
  have inferred: "true_sentence M d \<and> cells d \<noteq> {} \<and> (\<exists>s \<in> set (kb (fst sp1)). cells d \<subseteq> cells s)"
    if "d \<in> set ss" for d
    using infered_sentences_true [OF kb1] that unfolding ss_def by blast
  have purged: "cells d \<inter> (mines (fst sp1) \<union> safes (fst sp1)) = {}" if din: "d \<in> set ss" for d
  proof -
    obtain s where "s \<in> set (kb (fst sp1))" "cells d \<subseteq> cells s" using inferred [OF din] by blast
    then show ?thesis using consistent_kb [OF sp1(2), of s] by auto
  qed
  have con2: "consistent M (fst sp2)"
    unfolding sp2_def using sp1(2) inferred purged by (intro consistent_add_infered) auto
  have safes2: "c \<in> safes (fst sp2)" using sp1(3) by (simp add: sp2_def)
  obtain new where new: "kb (fst sp2) = kb (fst sp1) @ new" "set new \<subseteq> set ss"
      "set new \<inter> set (kb (fst sp1)) = {}" "snd sp2 = (snd sp1 \<or> new \<noteq> [])"
    using kb_add_infered_new [of ss sp1] unfolding sp2_def by blast
  have cells2: "cells_of (fst sp2) = cells_of (fst sp1)"
  proof -
    have "(\<Union>s \<in> set new. cells s) \<subseteq> cells_of (fst sp1)"
      using new(2) inferred by (fastforce simp: cells_of_def)
    then show ?thesis by (auto simp: cells_of_def new(1))
  qed
  have live2: "live (fst sp2) = live (fst sp1) \<union> set new"
    using new(2) inferred by (auto simp: live_def new(1))
  have fin: "finite (cells_of st)" using con by (rule finite_cells_of)
  have dec: "(effort (fst sp2), effort st) \<in> less_than <*lex*> less_than" if "snd sp2"
  proof (cases "snd sp1")
    case True
    then have "cells_of (fst sp1) \<subset> cells_of st" using sp1(4) by (auto simp: progress_def)
    then have "card (cells_of (fst sp2)) < card (cells_of st)"
      using fin cells2 by (simp add: psubset_card_mono)
    then show ?thesis by (simp add: effort_def)
  next
    case False
    then have same: "cells_of (fst sp1) = cells_of st" "live (fst sp1) = live st"
      using sp1(4) by (auto simp: progress_def)
    have "new \<noteq> []" using that False new(4) by simp
    then obtain d where d: "d \<in> set new" by (cases new) auto
    then have "d \<notin> live st" using new(3) same(2) by (auto simp: live_def)
    then have "live st \<subset> live (fst sp2)" using d live2 same(2) by auto
    then have "card (live st) < card (live (fst sp2))"
      using finite_live by (simp add: psubset_card_mono)
    moreover have "card (live (fst sp2)) \<le> 2 ^ card (cells_of (fst sp2))"
      using con2 by (rule live_bound)
    ultimately show ?thesis using cells2 same(1) by (simp add: effort_def)
  qed
  show ?thesis using pass con2 safes2 dec by blast
qed

lemma pass_step_dims:
  "pass_step c a sp = Inr sp' \<Longrightarrow> height (fst sp') = height (fst sp) \<and> width (fst sp') = width (fst sp)"
  by (auto simp: pass_step_def discard_cell_def remove_empty_def mark_known_mines_def
      mark_known_safes_def update_at_def Let_def split: sum.splits if_splits)

lemma mark_pass_dims:
  "mark_pass c todo sp = Inr sp' \<Longrightarrow> height (fst sp') = height (fst sp) \<and> width (fst sp') = width (fst sp)"
proof (induction todo arbitrary: sp)
  case Nil
  then show ?case by simp
next
  case (Cons a rest)
  then obtain sp1 where sp1: "pass_step c a sp = Inr sp1" "mark_pass c rest sp1 = Inr sp'"
    by (auto split: sum.splits)
  show ?case using Cons.IH [OF sp1(2)] pass_step_dims [OF sp1(1)] by simp
qed

lemma inference_pass_dims:
  "inference_pass c st = Inr sp \<Longrightarrow> height (fst sp) = height st \<and> width (fst sp) = width st"
  by (auto simp: inference_pass_def split: sum.splits dest!: mark_pass_dims)

lemma closure_ok:
  assumes "consistent M st" "c \<in> safes st"
  shows "\<exists>st'. closure c st = Some (Inr st') \<and> consistent M st' \<and> c \<in> safes st' \<and>
           height st' = height st \<and> width st' = width st"
proof -
  have wf: "wf (inv_image (less_than <*lex*> less_than) effort)"
    by (intro wf_inv_image wf_lex_prod wf_less_than)
  show ?thesis using assms
  proof (induction st rule: wf_induct_rule [OF wf])
    case (1 st)
    obtain sp2 where sp2: "inference_pass c st = Inr sp2" "consistent M (fst sp2)" "c \<in> safes (fst sp2)"
        "snd sp2 \<longrightarrow> (effort (fst sp2), effort st) \<in> less_than <*lex*> less_than"
      using inference_pass_ok [OF "1.prems"] by blast
    note dims = inference_pass_dims [OF sp2(1)]
    show ?case
    proof (cases "snd sp2")
      case False
      then have "closure c st = Some (Inr (fst sp2))"
        by (subst closure.simps) (simp add: sp2(1))
      then show ?thesis using sp2(2,3) dims by blast
    next
      case True
      then have eq: "closure c st = closure c (fst sp2)"
        by (subst closure.simps) (simp add: sp2(1))
      have "(fst sp2, st) \<in> inv_image (less_than <*lex*> less_than) effort"
        using True sp2(4) by simp
      from "1.IH" [OF this sp2(2,3)] show ?thesis using eq dims by simp
    qed
  qed
qed

lemma neighbours_around:
  "neighbours st c n =
     (n - int (card (around (height st) (width st) c \<inter> mines st)),
      around (height st) (width st) c - mines st - safes st)"
proof -
  have "{x. x \<notin> mines st \<and> x \<notin> safes st} = - mines st - safes st" by auto
  then show ?thesis
    by (simp add: neighbours_eq valid_candidates around_def [symmetric] Diff_eq Int_assoc Collect_neg_eq)
qed

lemma consistent_moves_made [simp]: "consistent M (st\<lparr>moves_made := m\<rparr>) = consistent M st"
  by (simp add: consistent_def)

lemma add_new_sentence_ok:
  assumes con: "consistent M st" and c: "c \<notin> M"
    and n: "n = int (card (around (height st) (width st) c \<inter> M))"
  shows "consistent M (add_new_sentence c n st) \<and> c \<in> safes (add_new_sentence c n st) \<and>
         height (add_new_sentence c n st) = height st \<and> width (add_new_sentence c n st) = width st"
proof -
  define st1 where "st1 = mark_safe c (st\<lparr>moves_made := insert c (moves_made st)\<rparr>)"
  define N where "N = around (height st) (width st) c"
  have con1: "consistent M st1"
    unfolding st1_def using c con by (intro consistent_mark_safe) simp_all
  have f1: "height st1 = height st" "width st1 = width st" "c \<in> safes st1"
    by (simp_all add: st1_def)
  define d where "d = \<lparr>cells = N - mines st1 - safes st1, count = n - int (card (N \<inter> mines st1))\<rparr>"
  have nb: "neighbours st1 c n = (n - int (card (N \<inter> mines st1)), N - mines st1 - safes st1)"
    by (simp add: neighbours_around f1 N_def)
  have unfold: "add_new_sentence c n st = (if cells d \<noteq> {} then fst (add_if_new d st1) else st1)"
    by (simp add: add_new_sentence_def st1_def [symmetric] nb d_def)
  have finN: "finite N" by (simp add: N_def finite_around)
  have m1: "mines st1 \<subseteq> M" "safes st1 \<inter> M = {}" using con1 by (simp_all add: consistent_def)
  have true_d: "true_sentence M d"
  proof -
    have eq: "(N - mines st1 - safes st1) \<inter> M = (N \<inter> M) - (N \<inter> mines st1)" using m1 by auto
    have sub: "N \<inter> mines st1 \<subseteq> N \<inter> M" using m1 by auto
    have "card ((N \<inter> M) - (N \<inter> mines st1)) = card (N \<inter> M) - card (N \<inter> mines st1)"
      using finN sub by (intro card_Diff_subset) auto
    moreover have "card (N \<inter> mines st1) \<le> card (N \<inter> M)" using finN sub by (intro card_mono) auto
    ultimately have "int (card ((N - mines st1 - safes st1) \<inter> M)) = n - int (card (N \<inter> mines st1))"
      using eq n by (simp add: N_def)
    then show ?thesis using finN by (simp add: true_sentence_def d_def)
  qed
  have purged_d: "cells d \<inter> (mines st1 \<union> safes st1) = {}" by (auto simp: d_def)
  have "consistent M (fst (add_if_new d st1))"
    using con1 true_d purged_d by (simp add: add_if_new_def consistent_append_sentence)
  then show ?thesis using con1 f1 by (simp add: unfold)
qed


definition in_play :: "minesweeper \<Rightarrow> ai \<Rightarrow> bool" where
  "in_play g st \<longleftrightarrow>
     consistent (mine_cells g) st \<and> height st = board_height g \<and> width st = board_width g"

lemma in_play_start: "in_play g (MinesweeperAI (board_height g) (board_width g))"
  by (simp add: in_play_def consistent_def MinesweeperAI_def)

lemma observation_not_mine: "observation_of g (c, n) \<Longrightarrow> c \<notin> mine_cells g"
  by (simp add: observation_of_def mine_cells_def)

lemma in_play_add_new_sentence:
  assumes "in_play g st" "observation_of g (c, n)"
  shows "in_play g (add_new_sentence c n st) \<and> c \<in> safes (add_new_sentence c n st)"
proof -
  have "n = int (card (around (height st) (width st) c \<inter> mine_cells g))"
    using assms by (simp add: observation_of_def nearby_mines_card in_play_def)
  then show ?thesis
    using add_new_sentence_ok [of "mine_cells g" st c n] assms observation_not_mine [OF assms(2)]
    by (simp add: in_play_def)
qed

lemma in_play_add_knowledge:
  assumes "in_play g st" "observation_of g (c, n)"
  shows "\<exists>st'. add_knowledge c n st = Some (Inr st') \<and> in_play g st'"
proof -
  have a: "in_play g (add_new_sentence c n st)" "c \<in> safes (add_new_sentence c n st)"
    using in_play_add_new_sentence [OF assms] by simp_all
  then show ?thesis
    using closure_ok [of "mine_cells g" "add_new_sentence c n st" c]
    by (auto simp: in_play_def add_knowledge_def)
qed

lemma in_play_observations:
  assumes "in_play g st" "\<forall>ob \<in> set obs. observation_of g ob"
  shows "\<exists>st'. observations obs st = Some (Inr st') \<and> in_play g st'"
  using assms
proof (induction obs arbitrary: st)
  case Nil
  then show ?case by simp
next
  case (Cons ob obs)
  obtain st1 where st1: "add_knowledge (fst ob) (snd ob) st = Some (Inr st1)" "in_play g st1"
    using in_play_add_knowledge [of g st "fst ob" "snd ob"] Cons.prems by auto
  then show ?case using Cons.IH [of st1] Cons.prems by simp
qed

lemma reached_on_in_play: "reached_on g st \<Longrightarrow> in_play g st"
proof (induction rule: reached_on.induct)
  case start
  show ?case by (rule in_play_start)
next
  case (observe st c n st')
  then show ?case using in_play_add_knowledge [of g st c n] by auto
next
  case (flag_mine st c)
  then show ?case by (simp add: in_play_def consistent_mark_mine)
next
  case (flag_safe st c)
  then show ?case by (simp add: in_play_def consistent_mark_safe)
next
  case (new_sentence st c n)
  then show ?case using in_play_add_new_sentence by blast
next
  case (pass st c sp)
  then have "consistent (mine_cells g) st" by (simp add: in_play_def)
  from inference_pass_ok [OF this pass(2)] pass(3) inference_pass_dims [OF pass(3)] pass(4)
  show ?case by (auto simp: in_play_def)
qed

lemma reached_on_observations:
  "reached_on g st \<Longrightarrow> \<forall>ob \<in> set obs. observation_of g ob \<Longrightarrow>
     observations obs st = Some (Inr st') \<Longrightarrow> reached_on g st'"
proof (induction obs arbitrary: st)
  case Nil
  then show ?case by simp
next
  case (Cons ob obs)
  then obtain st1 where st1: "add_knowledge (fst ob) (snd ob) st = Some (Inr st1)"
      "observations obs st1 = Some (Inr st')"
    by (auto split: option.splits sum.splits)
  have "reached_on g st1"
    using reached_on.observe [OF Cons.prems(1) _ st1(1)] Cons.prems(2) by simp
  then show ?case using Cons.IH [OF _ _ st1(2)] Cons.prems(2) by simp
qed

text \<open>
  C2.  For every board and every finite sequence of observations of that board (each
  a cell of the board that is not a mine, with its number of neighbouring mines) fed
  to a new engine of the board's size, every call of \<open>add_knowledge\<close> returns, and
  without an error: each time, the closure loop ends after finitely many passes.
\<close>

theorem closure_terminates:
  assumes "board_ok g" "\<forall>ob \<in> set obs. observation_of g ob"
  shows "\<exists>st. observations obs (MinesweeperAI (board_height g) (board_width g)) = Some (Inr st)"
  using in_play_observations [OF in_play_start assms(2)] by blast

text \<open>
  The board of the specification's scenario: 3 by 3 with a single mine at \<open>(2, 2)\<close>.
\<close>

definition corner_mine :: minesweeper where
  "corner_mine = \<lparr>board_height = 3, board_width = 3,
     board = [[False, False, False], [False, False, False], [False, False, True]]\<rparr>"

lemma corner_mine_ok: "board_ok corner_mine"
  by (simp add: board_ok_def corner_mine_def)

lemma corner_mine_observations:
  "\<forall>ob \<in> set [((0, 0), 0), ((0, 1), 0), ((1, 0), 0), ((1, 1), 1)]. observation_of corner_mine ob"
  by code_simp

theorem closure_terminates_witness:
  "\<exists>st. observations [((0, 0), 0), ((0, 1), 0), ((1, 0), 0), ((1, 1), 1)] (MinesweeperAI 3 3) = Some (Inr st)"
  using closure_terminates [OF corner_mine_ok corner_mine_observations]
  by (simp add: corner_mine_def)

text \<open>
  C4, as amended.  In every engine state reached on a board by calls that are true of
  that board, no cell is both in \<open>safes\<close> and in \<open>mines\<close>.
\<close>

theorem safes_mines_disjoint:
  assumes "board_ok g" "reached_on g st"
  shows "safes st \<inter> mines st = {}"
  using reached_on_in_play [OF assms(2)] by (auto simp: in_play_def consistent_def)

text \<open>
  C5, as amended.  In every engine state reached on a board by calls that are true of
  that board, also between the steps of \<open>add_knowledge\<close>, every sentence of the
  knowledge base has a count between 0 and the number of its cells.
\<close>

theorem count_within_bounds:
  assumes "board_ok g" "reached_on g st"
  shows "\<forall>s \<in> set (kb st). 0 \<le> count s \<and> count s \<le> int (card (cells s))"
proof
  fix s assume "s \<in> set (kb st)"
  moreover have "consistent (mine_cells g) st" using reached_on_in_play [OF assms(2)] by (simp add: in_play_def)
  ultimately have "true_sentence (mine_cells g) s" using consistent_kb by blast
  then have "finite (cells s)" "count s = int (card (cells s \<inter> mine_cells g))"
    by (simp_all add: true_sentence_def)
  moreover from this have "card (cells s \<inter> mine_cells g) \<le> card (cells s)"
    by (intro card_mono) auto
  ultimately show "0 \<le> count s \<and> count s \<le> int (card (cells s))" by simp
qed

lemma corner_mine_run:
  "map_option (map_sum id (\<lambda>st. (mines st, safes st)))
     (observations [((0, 0), 0), ((0, 1), 0), ((1, 0), 0), ((1, 1), 1)] (MinesweeperAI 3 3)) =
   Some (Inr ({(2, 2)}, {(0, 0), (0, 1), (0, 2), (1, 0), (1, 1), (1, 2), (2, 0), (2, 1)}))"
  by code_simp

theorem safes_mines_disjoint_witness:
  "\<exists>st. observations [((0, 0), 0), ((0, 1), 0), ((1, 0), 0), ((1, 1), 1)] (MinesweeperAI 3 3) = Some (Inr st) \<and>
        mines st = {(2, 2)} \<and>
        safes st = {(0, 0), (0, 1), (0, 2), (1, 0), (1, 1), (1, 2), (2, 0), (2, 1)} \<and>
        safes st \<inter> mines st = {}"
proof -
  obtain st where st: "observations [((0, 0), 0), ((0, 1), 0), ((1, 0), 0), ((1, 1), 1)] (MinesweeperAI 3 3) = Some (Inr st)"
    using in_play_observations [OF in_play_start corner_mine_observations] by (auto simp: corner_mine_def)
  have "reached_on corner_mine (MinesweeperAI 3 3)"
    using reached_on.start [of corner_mine] by (simp add: corner_mine_def)
  then have "reached_on corner_mine st"
    using corner_mine_observations st by (rule reached_on_observations)
  then have "safes st \<inter> mines st = {}"
    using safes_mines_disjoint [OF corner_mine_ok] by blast
  moreover have "mines st = {(2, 2)} \<and> safes st = {(0, 0), (0, 1), (0, 2), (1, 0), (1, 1), (1, 2), (2, 0), (2, 1)}"
    using corner_mine_run st by simp
  ultimately show ?thesis using st by blast
qed


lemma run_result:
  "map_option (map_sum id p) r = Some (Inr v) \<Longrightarrow> \<exists>st. r = Some (Inr st) \<and> p st = v"
proof (cases r)
  case None
  assume "map_option (map_sum id p) r = Some (Inr v)"
  then show ?thesis using None by simp
next
  case (Some x)
  assume "map_option (map_sum id p) r = Some (Inr v)"
  then show ?thesis using Some by (cases x) simp_all
qed

lemma corner_mine_two:
  "\<forall>ob \<in> set [((0, 0), 0), ((1, 1), 1)]. observation_of corner_mine ob"
  by code_simp

lemma corner_mine_two_run:
  "map_option (map_sum id kb) (observations [((0, 0), 0), ((1, 1), 1)] (MinesweeperAI 3 3)) =
   Some (Inr [\<lparr>cells = {(0, 2), (1, 2), (2, 0), (2, 1), (2, 2)}, count = 1\<rparr>])"
  by code_simp

theorem count_within_bounds_witness:
  "\<exists>st. observations [((0, 0), 0), ((1, 1), 1)] (MinesweeperAI 3 3) = Some (Inr st) \<and>
        kb st = [\<lparr>cells = {(0, 2), (1, 2), (2, 0), (2, 1), (2, 2)}, count = 1\<rparr>] \<and>
        (0::int) \<le> 1 \<and> (1::int) \<le> int (card {(0::int, 2::int), (1, 2), (2, 0), (2, 1), (2, 2)})"
proof -
  obtain st where st: "observations [((0, 0), 0), ((1, 1), 1)] (MinesweeperAI 3 3) = Some (Inr st)"
      "kb st = [\<lparr>cells = {(0, 2), (1, 2), (2, 0), (2, 1), (2, 2)}, count = 1\<rparr>]"
    using run_result [OF corner_mine_two_run] by blast
  have "reached_on corner_mine (MinesweeperAI 3 3)"
    using reached_on.start [of corner_mine] by (simp add: corner_mine_def)
  then have "reached_on corner_mine st"
    using corner_mine_two st(1) by (rule reached_on_observations)
  then have "\<forall>s \<in> set (kb st). 0 \<le> count s \<and> count s \<le> int (card (cells s))"
    using count_within_bounds [OF corner_mine_ok] by blast
  then have "(0::int) \<le> 1 \<and> (1::int) \<le> int (card {(0::int, 2::int), (1, 2), (2, 0), (2, 1), (2, 2)})"
    using st(2) by simp
  with st show ?thesis by blast
qed

text \<open>
  C4 as stated fails: after \<open>mark_mine\<close> and \<open>mark_safe\<close> on the same cell the cell is
  in both sets, and so is the cell \<open>(0, 1)\<close> of a 1 by 2 board after the observation
  \<open>((0, 0), 1)\<close>, which makes it a known mine, followed by an observation of that
  cell itself, which \<open>add_knowledge\<close> marks safe without looking at \<open>mines\<close>.
\<close>

theorem safes_mines_overlap:
  "safes (mark_safe (0, 0) (mark_mine (0, 0) (MinesweeperAI 8 8))) \<inter>
     mines (mark_safe (0, 0) (mark_mine (0, 0) (MinesweeperAI 8 8))) = {(0, 0)} \<and>
   (\<exists>st. observations [((0, 0), 1), ((0, 1), 0)] (MinesweeperAI 1 2) = Some (Inr st) \<and>
         safes st \<inter> mines st = {(0, 1)})"
proof
  show "safes (mark_safe (0, 0) (mark_mine (0, 0) (MinesweeperAI 8 8))) \<inter>
     mines (mark_safe (0, 0) (mark_mine (0, 0) (MinesweeperAI 8 8))) = {(0, 0)}"
    by (simp add: MinesweeperAI_def)
  have "map_option (map_sum id (\<lambda>st. safes st \<inter> mines st))
          (observations [((0, 0), 1), ((0, 1), 0)] (MinesweeperAI 1 2)) = Some (Inr {(0, 1)})"
    by code_simp
  then show "\<exists>st. observations [((0, 0), 1), ((0, 1), 0)] (MinesweeperAI 1 2) = Some (Inr st) \<and>
         safes st \<inter> mines st = {(0, 1)}"
    by (rule run_result)
qed

text \<open>
  C5 as stated fails: \<open>add_knowledge\<close> takes any count, and on a 1 by 2 board the
  count 5 for the cell \<open>(0, 0)\<close> leaves a sentence with one cell and count 5.
\<close>

theorem count_out_of_bounds:
  "\<exists>st. add_knowledge (0, 0) 5 (MinesweeperAI 1 2) = Some (Inr st) \<and>
        kb st = [\<lparr>cells = {(0, 1)}, count = 5\<rparr>] \<and>
        \<not> (\<forall>s \<in> set (kb st). 0 \<le> count s \<and> count s \<le> int (card (cells s)))"
proof -
  have r: "map_option (map_sum id kb) (add_knowledge (0, 0) 5 (MinesweeperAI 1 2)) =
          Some (Inr [\<lparr>cells = {(0, 1)}, count = 5\<rparr>])"
    by code_simp
  obtain st where st: "add_knowledge (0, 0) 5 (MinesweeperAI 1 2) = Some (Inr st)"
      "kb st = [\<lparr>cells = {(0, 1)}, count = 5\<rparr>]"
    using run_result [OF r] by blast
  have "\<not> (\<forall>s \<in> set (kb st). 0 \<le> count s \<and> count s \<le> int (card (cells s)))"
    using st(2) by simp
  with st show ?thesis by blast
qed

text \<open>
  C6 as stated fails, even for true observations.  On the 3 by 2 board with a single
  mine at \<open>(1, 1)\<close>, the observations of \<open>(2, 1)\<close>, \<open>(2, 0)\<close> and \<open>(0, 0)\<close> leave
  the sentences \<open>({(1,0), (1,1)}, 1)\<close> and \<open>({(0,1), (1,0), (1,1)}, 1)\<close>; the loop
  infers that \<open>(0, 1)\<close> is safe and \<open>mark_safe\<close> shrinks the second sentence to the
  value of the first.  Both stay in the knowledge base.
\<close>

definition middle_mine :: minesweeper where
  "middle_mine = \<lparr>board_height = 3, board_width = 2,
     board = [[False, False], [False, True], [False, False]]\<rparr>"

theorem duplicate_sentences:
  "board_ok middle_mine \<and>
   observation_of middle_mine ((2, 1), 1) \<and> observation_of middle_mine ((2, 0), 1) \<and>
   observation_of middle_mine ((0, 0), 1) \<and>
   (\<exists>st. observations [((2, 1), 1), ((2, 0), 1), ((0, 0), 1)] (MinesweeperAI 3 2) = Some (Inr st) \<and>
         kb st = [\<lparr>cells = {(1, 0), (1, 1)}, count = 1\<rparr>, \<lparr>cells = {(1, 0), (1, 1)}, count = 1\<rparr>] \<and>
         \<not> distinct (kb st))"
proof -
  have obs: "board_ok middle_mine" "observation_of middle_mine ((2, 1), 1)"
      "observation_of middle_mine ((2, 0), 1)" "observation_of middle_mine ((0, 0), 1)"
    by code_simp+
  have r: "map_option (map_sum id kb)
          (observations [((2, 1), 1), ((2, 0), 1), ((0, 0), 1)] (MinesweeperAI 3 2)) =
        Some (Inr [\<lparr>cells = {(1, 0), (1, 1)}, count = 1\<rparr>, \<lparr>cells = {(1, 0), (1, 1)}, count = 1\<rparr>])"
    by code_simp
  obtain st where st: "observations [((2, 1), 1), ((2, 0), 1), ((0, 0), 1)] (MinesweeperAI 3 2) = Some (Inr st)"
      "kb st = [\<lparr>cells = {(1, 0), (1, 1)}, count = 1\<rparr>, \<lparr>cells = {(1, 0), (1, 1)}, count = 1\<rparr>]"
    using run_result [OF r] by blast
  have "\<not> distinct (kb st)" using st(2) by simp
  with st obs show ?thesis by blast
qed

text \<open>
  C6, as amended.  A sentence is appended only when no equal sentence is in the
  knowledge base: \<open>add_if_new\<close> leaves the list as it is when the sentence is there
  and appends it once otherwise, so both places that append (the new sentence of
  lines 215-218 after \<open>mark_safe\<close>, and the inferred sentences of lines 257-260) turn
  a list without duplicates into a list without duplicates.
\<close>

theorem append_keeps_distinct:
  "(s \<in> set (kb st) \<longrightarrow> kb (fst (add_if_new s st)) = kb st) \<and>
   (s \<notin> set (kb st) \<longrightarrow> kb (fst (add_if_new s st)) = kb st @ [s]) \<and>
   (distinct (map (sentence_mark_safe c) (kb st)) \<longrightarrow> distinct (kb (add_new_sentence c n st))) \<and>
   (distinct (kb (fst sp)) \<longrightarrow> distinct (kb (fst (add_infered ss sp))))"
proof (intro conjI impI)
  show "s \<in> set (kb st) \<Longrightarrow> kb (fst (add_if_new s st)) = kb st" by (simp add: kb_add_if_new)
  show "s \<notin> set (kb st) \<Longrightarrow> kb (fst (add_if_new s st)) = kb st @ [s]" by (simp add: kb_add_if_new)
next
  assume d: "distinct (map (sentence_mark_safe c) (kb st))"
  define st1 where "st1 = mark_safe c (st\<lparr>moves_made := insert c (moves_made st)\<rparr>)"
  have kb1: "kb st1 = map (sentence_mark_safe c) (kb st)" by (simp add: st1_def kb_mark_safe)
  have "distinct (kb (fst (add_if_new x st1)))" for x
    using d kb1 by (simp add: kb_add_if_new)
  then show "distinct (kb (add_new_sentence c n st))"
    using d kb1 by (simp add: add_new_sentence_def st1_def [symmetric] Let_def split: prod.splits)
next
  assume "distinct (kb (fst sp))"
  then show "distinct (kb (fst (add_infered ss sp)))"
  proof (induction ss arbitrary: sp)
    case Nil
    then show ?case by simp
  next
    case (Cons x xs)
    have "distinct (kb (fst (add_if_new x (fst sp))))" using Cons.prems by (simp add: kb_add_if_new)
    then have "distinct (kb (fst (add_infered xs (fst (add_if_new x (fst sp)), snd sp \<or> snd (add_if_new x (fst sp))))))"
      using Cons.IH [of "(fst (add_if_new x (fst sp)), snd sp \<or> snd (add_if_new x (fst sp)))"] by simp
    then show ?case by (simp add: case_prod_beta)
  qed
qed

theorem append_keeps_distinct_witness:
  "kb (fst (add_if_new \<lparr>cells = {(0, 1)}, count = 1\<rparr> (MinesweeperAI 8 8))) = [\<lparr>cells = {(0, 1)}, count = 1\<rparr>] \<and>
   kb (fst (add_if_new \<lparr>cells = {(0, 1)}, count = 1\<rparr>
        (fst (add_if_new \<lparr>cells = {(0, 1)}, count = 1\<rparr> (MinesweeperAI 8 8))))) = [\<lparr>cells = {(0, 1)}, count = 1\<rparr>] \<and>
   distinct (kb (add_new_sentence (0, 0) 1 (MinesweeperAI 8 8))) \<and>
   distinct (kb (fst (add_infered [\<lparr>cells = {(0, 1)}, count = 1\<rparr>, \<lparr>cells = {(0, 1)}, count = 1\<rparr>]
        (MinesweeperAI 8 8, False))))"
proof -
  have k0: "kb (MinesweeperAI 8 8) = []" by (simp add: kb_def MinesweeperAI_def)
  have k1: "kb (fst (add_if_new \<lparr>cells = {(0, 1)}, count = 1\<rparr> (MinesweeperAI 8 8))) = [\<lparr>cells = {(0, 1)}, count = 1\<rparr>]"
    using append_keeps_distinct [of "\<lparr>cells = {(0, 1)}, count = 1\<rparr>" "MinesweeperAI 8 8"] by (simp add: k0)
  have k2: "kb (fst (add_if_new \<lparr>cells = {(0, 1)}, count = 1\<rparr>
        (fst (add_if_new \<lparr>cells = {(0, 1)}, count = 1\<rparr> (MinesweeperAI 8 8))))) = [\<lparr>cells = {(0, 1)}, count = 1\<rparr>]"
    using append_keeps_distinct [of "\<lparr>cells = {(0, 1)}, count = 1\<rparr>"
        "fst (add_if_new \<lparr>cells = {(0, 1)}, count = 1\<rparr> (MinesweeperAI 8 8))"]
    by (simp add: k1)
  have k3: "distinct (kb (add_new_sentence (0, 0) 1 (MinesweeperAI 8 8)))"
    using append_keeps_distinct [of _ "MinesweeperAI 8 8" "(0, 0)" 1] by (simp add: k0)
  have k4: "distinct (kb (fst (add_infered [\<lparr>cells = {(0, 1)}, count = 1\<rparr>, \<lparr>cells = {(0, 1)}, count = 1\<rparr>]
        (MinesweeperAI 8 8, False))))"
    using append_keeps_distinct [of _ _ _ _ "(MinesweeperAI 8 8, False)"
        "[\<lparr>cells = {(0, 1)}, count = 1\<rparr>, \<lparr>cells = {(0, 1)}, count = 1\<rparr>]"]
    by (simp add: k0 del: add_infered.simps)
  show ?thesis using k1 k2 k3 k4 by blast
qed


section \<open>Counts that are observations of no board\<close>

lemma infered_sentences_mem:
  assumes "s \<in> set K" "f \<in> set K" "cells s \<subset> cells f"
  shows "\<lparr>cells = cells f - cells s, count = count f - count s\<rparr> \<in> set (infered_sentences K)"
proof -
  obtain i where i: "i < length K" "K ! i = s" using assms(1) by (auto simp: in_set_conv_nth)
  obtain j where j: "j < length K" "K ! j = f" using assms(2) by (auto simp: in_set_conv_nth)
  have "i \<noteq> j" using i j assms(3) by auto
  then show ?thesis using infered_sentences_pair [of i K j] i j assms(3) by simp
qed

lemma infered_sentences_origin:
  "d \<in> set (infered_sentences K) \<Longrightarrow>
     \<exists>s \<in> set K. \<exists>f \<in> set K. cells s \<subset> cells f \<and>
        d = \<lparr>cells = cells f - cells s, count = count f - count s\<rparr>"
proof (induction K)
  case Nil
  then show ?case by simp
next
  case (Cons x rest)
  from Cons.prems consider f where "f \<in> set rest" "d \<in> set (infer_pair x f)"
    | "d \<in> set (infered_sentences rest)"
    by auto
  then show ?case
  proof cases
    case 1
    then consider "cells f \<subset> cells x" "d = \<lparr>cells = cells x - cells f, count = count x - count f\<rparr>"
      | "cells x \<subset> cells f" "d = \<lparr>cells = cells f - cells x, count = count f - count x\<rparr>"
      by (auto simp: infer_pair_def split: if_splits)
    then show ?thesis
    proof cases
      case a: 1
      have "f \<in> set (x # rest)" "x \<in> set (x # rest)" using 1(1) by simp_all
      then show ?thesis using a by blast
    next
      case b: 2
      have "f \<in> set (x # rest)" "x \<in> set (x # rest)" using 1(1) by simp_all
      then show ?thesis using b by blast
    qed
  next
    case 2
    from Cons.IH [OF 2] obtain s f where "s \<in> set rest" "f \<in> set rest" "cells s \<subset> cells f"
        "d = \<lparr>cells = cells f - cells s, count = count f - count s\<rparr>"
      by blast
    then have "s \<in> set (x # rest)" "f \<in> set (x # rest)" "cells s \<subset> cells f"
        "d = \<lparr>cells = cells f - cells s, count = count f - count s\<rparr>"
      by simp_all
    then show ?thesis by blast
  qed
qed

text \<open>
  The observations of a board are what makes the closure loop end.  The following
  calls are observations of no board (they give two counts for one cell), and on them
  the loop goes on for ever.  On a 1 by 4 board the calls \<open>add_knowledge((0, 3), 5)\<close>, \<open>add_knowledge((0, 1), 10)\<close> and
  \<open>add_knowledge((0, 1), 20)\<close> leave the sentences \<open>({(0,2)}, 5)\<close>,
  \<open>({(0,0), (0,2)}, 10)\<close>, \<open>({(0,0)}, 5)\<close> and \<open>({(0,0), (0,2)}, 20)\<close>.  From then
  on every pass infers a sentence on one cell whose count is 10 away from a count
  that is there, and none of the counts is ever 0 or the number of cells.
  \<open>drifting\<close> describes the knowledge bases of these passes.
\<close>

definition drifting :: "ai \<Rightarrow> bool" where
  "drifting st \<longleftrightarrow>
     (\<forall>s \<in> set (kb st).
        ((cells s = {(0, 0)} \<or> cells s = {(0, 2)}) \<and> count s mod 10 = 5) \<or>
        (cells s = {(0, 0), (0, 2)} \<and> (count s = 10 \<or> count s = 20))) \<and>
     \<lparr>cells = {(0, 0), (0, 2)}, count = 10\<rparr> \<in> set (kb st) \<and>
     \<lparr>cells = {(0, 0), (0, 2)}, count = 20\<rparr> \<in> set (kb st) \<and>
     \<lparr>cells = {(0, 2)}, count = 5\<rparr> \<in> set (kb st)"

lemma drifting_step:
  assumes "drifting st" "a \<in> set (knowledge st)"
  shows "pass_step (0, 1) a (st, p) = Inr (st, p)"
proof -
  have "heap st a \<in> set (kb st)" using assms(2) by (simp add: kb_def)
  then consider "cells (heap st a) = {(0, 0)}" "count (heap st a) mod 10 = 5"
    | "cells (heap st a) = {(0, 2)}" "count (heap st a) mod 10 = 5"
    | "cells (heap st a) = {(0, 0), (0, 2)}" "count (heap st a) = 10 \<or> count (heap st a) = 20"
    using assms(1) unfolding drifting_def by blast
  then have "(0, 1) \<notin> cells (heap st a) \<and> cells (heap st a) \<noteq> {} \<and>
      known_mines (heap st a) = {} \<and> known_safes (heap st a) = {}"
    by cases (auto simp: known_mines_def known_safes_def)
  then show ?thesis
    by (simp add: pass_step_def discard_cell_def remove_empty_def mark_known_mines_def
        mark_known_safes_def)
qed

lemma drifting_mark_pass:
  "drifting st \<Longrightarrow> set ks \<subseteq> set (knowledge st) \<Longrightarrow> mark_pass (0, 1) ks (st, p) = Inr (st, p)"
  by (induction ks) (simp_all add: drifting_step)

lemma drifting_new:
  assumes "drifting st"
  shows "\<exists>d \<in> set (infered_sentences (kb st)). d \<notin> set (kb st)"
proof -
  let ?X = "{(0::int, 0::int), (0, 2)}"
  define T where "T = {s \<in> set (kb st). cells s = {(0, 0)} \<or> cells s = {(0, 2)}}"
  have x10: "\<lparr>cells = ?X, count = 10\<rparr> \<in> set (kb st)" and x20: "\<lparr>cells = ?X, count = 20\<rparr> \<in> set (kb st)"
    using assms by (simp_all add: drifting_def)
  have "finite T" by (simp add: T_def)
  moreover have "T \<noteq> {}" using assms by (auto simp: T_def drifting_def)
  ultimately have "Max (count ` T) \<in> count ` T" by (intro Max_in) auto
  then obtain s where s: "s \<in> T" "count s = Max (count ` T)" by auto
  have top: "count t \<le> count s" if "t \<in> T" for t
    using that \<open>finite T\<close> s(2) by simp
  have s_kb: "s \<in> set (kb st)" and s_cells: "cells s = {(0, 0)} \<or> cells s = {(0, 2)}"
    using s(1) by (simp_all add: T_def)
  have sub: "cells s \<subset> ?X" using s_cells by auto
  define t where "t = \<lparr>cells = ?X - cells s, count = 10 - count s\<rparr>"
  have t_inf: "t \<in> set (infered_sentences (kb st))"
    using infered_sentences_mem [OF s_kb x10] sub by (simp add: t_def)
  show ?thesis
  proof (cases "t \<in> set (kb st)")
    case False
    then show ?thesis using t_inf by blast
  next
    case True
    have t_sub: "cells t \<subset> ?X" using s_cells by (auto simp: t_def)
    define u where "u = \<lparr>cells = ?X - cells t, count = 20 - count t\<rparr>"
    have u_inf: "u \<in> set (infered_sentences (kb st))"
      using infered_sentences_mem [OF True x20] t_sub by (simp add: u_def)
    have u_cells: "cells u = cells s" using s_cells by (auto simp: u_def t_def)
    have u_count: "count u = count s + 10" by (simp add: u_def t_def)
    have "u \<notin> set (kb st)"
    proof
      assume "u \<in> set (kb st)"
      then have "u \<in> T" using u_cells s_cells by (simp add: T_def)
      then show False using top [of u] u_count by simp
    qed
    then show ?thesis using u_inf by blast
  qed
qed

lemma drifting_pass:
  assumes "drifting st"
  shows "\<exists>st'. inference_pass (0, 1) st = Inr (st', True) \<and> drifting st'"
proof -
  define ss where "ss = infered_sentences (kb st)"
  define sp where "sp = add_infered ss (st, False)"
  have pass: "inference_pass (0, 1) st = Inr sp"
    using drifting_mark_pass [OF assms, of "knowledge st" False]
    by (simp add: inference_pass_def sp_def ss_def)
  obtain new where new: "kb (fst sp) = kb st @ new" "set new \<subseteq> set ss"
      "set ss \<subseteq> set (kb st) \<union> set new" "snd sp = (False \<or> new \<noteq> [])"
    using kb_add_infered [of ss "(st, False)"] unfolding sp_def by auto
  obtain d where "d \<in> set ss" "d \<notin> set (kb st)" using drifting_new [OF assms] ss_def by blast
  then have "new \<noteq> []" using new(3) by auto
  then have flag: "snd sp" using new(4) by simp
  have shape: "(cells d = {(0, 0)} \<or> cells d = {(0, 2)}) \<and> count d mod 10 = 5" if din: "d \<in> set ss" for d
  proof -
    obtain s f where sf: "s \<in> set (kb st)" "f \<in> set (kb st)" "cells s \<subset> cells f"
        "d = \<lparr>cells = cells f - cells s, count = count f - count s\<rparr>"
      using infered_sentences_origin [of d "kb st"] din unfolding ss_def by blast
    have any: "((cells x = {(0, 0)} \<or> cells x = {(0, 2)}) \<and> count x mod 10 = 5) \<or>
        (cells x = {(0, 0), (0, 2)} \<and> (count x = 10 \<or> count x = 20))" if xin: "x \<in> set (kb st)" for x
      using assms xin unfolding drifting_def by blast
    have f: "cells f = {(0, 0), (0, 2)}" "count f = 10 \<or> count f = 20"
      using any [OF sf(2)] any [OF sf(1)] sf(3) by auto
    have s: "cells s = {(0, 0)} \<or> cells s = {(0, 2)}" "count s mod 10 = 5"
      using any [OF sf(1)] f(1) sf(3) by auto
    have "cells d = {(0, 0)} \<or> cells d = {(0, 2)}" using f(1) s(1) sf(4) by auto
    moreover have "count d mod 10 = 5" using f(2) s(2) sf(4) by auto presburger+
    ultimately show ?thesis by simp
  qed
  have old: "((cells x = {(0, 0)} \<or> cells x = {(0, 2)}) \<and> count x mod 10 = 5) \<or>
        (cells x = {(0, 0), (0, 2)} \<and> (count x = 10 \<or> count x = 20))" if xin: "x \<in> set (kb st)" for x
    using assms xin unfolding drifting_def by blast
  have "drifting (fst sp)"
    unfolding drifting_def
  proof (intro conjI ballI)
    fix x assume "x \<in> set (kb (fst sp))"
    then consider "x \<in> set (kb st)" | "x \<in> set ss" using new(1,2) by auto
    then show "((cells x = {(0, 0)} \<or> cells x = {(0, 2)}) \<and> count x mod 10 = 5) \<or>
        (cells x = {(0, 0), (0, 2)} \<and> (count x = 10 \<or> count x = 20))"
    proof cases
      case 1
      then show ?thesis by (rule old)
    next
      case 2
      then show ?thesis using shape by blast
    qed
  next
    show "\<lparr>cells = {(0, 0), (0, 2)}, count = 10\<rparr> \<in> set (kb (fst sp))"
      using assms by (simp add: drifting_def new(1))
    show "\<lparr>cells = {(0, 0), (0, 2)}, count = 20\<rparr> \<in> set (kb (fst sp))"
      using assms by (simp add: drifting_def new(1))
    show "\<lparr>cells = {(0, 2)}, count = 5\<rparr> \<in> set (kb (fst sp))"
      using assms by (simp add: drifting_def new(1))
  qed
  moreover have "sp = (fst sp, True)" using flag by (simp add: prod_eq_iff)
  ultimately show ?thesis using pass by metis
qed

lemma drifting_diverges:
  assumes "drifting st"
  shows "closure (0, 1) st = None"
proof (rule ccontr)
  assume "closure (0, 1) st \<noteq> None"
  then obtain y where y: "closure (0, 1) st = Some y" by auto
  have "(0, 1) = (0::int, 1::int) \<and> drifting st \<longrightarrow> False"
    using y
  proof (rule closure.raw_induct [rotated, where P = "\<lambda>c st y. c = (0, 1) \<and> drifting st \<longrightarrow> False"])
    fix f :: "cell \<Rightarrow> ai \<Rightarrow> (error + ai) option" and c st y
    assume IH: "\<And>c st y. f c st = Some y \<Longrightarrow> c = (0, 1) \<and> drifting st \<longrightarrow> False"
      and body: "(case inference_pass c st of
          Inl e \<Rightarrow> Some (Inl e)
        | Inr sp \<Rightarrow> if snd sp then f c (fst sp) else Some (Inr (fst sp))) = Some y"
    show "c = (0, 1) \<and> drifting st \<longrightarrow> False"
    proof
      assume a: "c = (0, 1) \<and> drifting st"
      then obtain st' where st': "inference_pass (0, 1) st = Inr (st', True)" "drifting st'"
        using drifting_pass by blast
      then have "f (0, 1) st' = Some y" using body a by simp
      then show False using IH st'(2) by blast
    qed
  qed
  then show False using assms by simp
qed


lemma kb_add_new_sentence:
  "kb (add_new_sentence c n st) =
     (if around (height st) (width st) c - mines st - safes st \<noteq> {} \<and>
         \<lparr>cells = around (height st) (width st) c - mines st - safes st,
           count = n - int (card (around (height st) (width st) c \<inter> mines st))\<rparr>
           \<notin> set (map (sentence_mark_safe c) (kb st))
      then map (sentence_mark_safe c) (kb st) @
           [\<lparr>cells = around (height st) (width st) c - mines st - safes st,
              count = n - int (card (around (height st) (width st) c \<inter> mines st))\<rparr>]
      else map (sentence_mark_safe c) (kb st))"
proof -
  define st1 where "st1 = mark_safe c (st\<lparr>moves_made := insert c (moves_made st)\<rparr>)"
  define N where "N = around (height st) (width st) c"
  have "c \<notin> N" by (simp add: N_def around_def)
  then have "N - mines st - insert c (safes st) = N - mines st - safes st" by auto
  then have nb: "neighbours st1 c n = (n - int (card (N \<inter> mines st)), N - mines st - safes st)"
    by (simp add: neighbours_around st1_def N_def)
  have kb1: "kb st1 = map (sentence_mark_safe c) (kb st)"
    by (simp add: st1_def kb_mark_safe)
  show ?thesis
    unfolding N_def [symmetric]
    by (simp add: add_new_sentence_def st1_def [symmetric] nb kb_add_if_new kb1)
qed

lemma two_observations:
  "map_option (map_sum id (\<lambda>st. (kb st, mines st, safes st, height st, width st)))
     (observations [((0, 3), 5), ((0, 1), 10)] (MinesweeperAI 1 4)) =
   Some (Inr ([\<lparr>cells = {(0, 2)}, count = 5\<rparr>, \<lparr>cells = {(0, 0), (0, 2)}, count = 10\<rparr>,
               \<lparr>cells = {(0, 0)}, count = 5\<rparr>], {}, {(0, 1), (0, 3)}, 1, 4))"
  by code_simp

lemma around_example: "around 1 4 (0, 1) = {(0, 0), (0, 2)}"
  by (auto simp: around_def)

text \<open>
  The first two of these calls return, and the third call never does.
\<close>

lemma closure_runs_forever:
  "(\<exists>st. observations [((0, 3), 5), ((0, 1), 10)] (MinesweeperAI 1 4) = Some (Inr st)) \<and>
   observations [((0, 3), 5), ((0, 1), 10), ((0, 1), 20)] (MinesweeperAI 1 4) = None"
proof -
  obtain st where st: "observations [((0, 3), 5), ((0, 1), 10)] (MinesweeperAI 1 4) = Some (Inr st)"
      "(kb st, mines st, safes st, height st, width st) =
         ([\<lparr>cells = {(0, 2)}, count = 5\<rparr>, \<lparr>cells = {(0, 0), (0, 2)}, count = 10\<rparr>,
           \<lparr>cells = {(0, 0)}, count = 5\<rparr>], {}, {(0, 1), (0, 3)}, 1, 4)"
    using run_result [OF two_observations] by blast
  have diff: "{(0, 0), (0, 2)} - {(0::int, 1::int), (0, 3)} = {(0, 0), (0, 2)}" by auto
  have ne: "{(0::int, 0::int), (0, 2)} \<noteq> {(0, 2)}" "{(0::int, 0::int), (0, 2)} \<noteq> {(0, 0)}" by auto
  have "kb (add_new_sentence (0, 1) 20 st) =
      [\<lparr>cells = {(0, 2)}, count = 5\<rparr>, \<lparr>cells = {(0, 0), (0, 2)}, count = 10\<rparr>,
       \<lparr>cells = {(0, 0)}, count = 5\<rparr>, \<lparr>cells = {(0, 0), (0, 2)}, count = 20\<rparr>]"
    using st(2) ne by (simp add: kb_add_new_sentence around_example diff sentence_mark_safe_def)
  then have "drifting (add_new_sentence (0, 1) 20 st)"
    by (simp add: drifting_def)
  then have "add_knowledge (0, 1) 20 st = None"
    unfolding add_knowledge_def by (rule drifting_diverges)
  moreover have "observations ([((0, 3), 5), ((0, 1), 10)] @ [((0, 1), 20)]) (MinesweeperAI 1 4) =
      (case add_knowledge (0, 1) 20 st of None \<Rightarrow> None | Some (Inl e) \<Rightarrow> Some (Inl e)
       | Some (Inr st') \<Rightarrow> Some (Inr st'))"
    using st(1) by (auto split: option.splits sum.splits)
  ultimately show ?thesis using st(1) by auto
qed

end
